theory Spec2Isabelle
  imports Complex_Main "HOL-Library.Word"
begin

unbundle bit_operations_syntax

section \<open>Machine types and constants\<close>

text \<open>
  The firmware is C++ for a 32-bit microcontroller.  A \<open>signed char\<close> is an 8-bit word read
  with \<open>sint\<close>; an \<open>unsigned char\<close> is an 8-bit word read with \<open>uint\<close>; storing an \<open>int\<close>
  into either keeps the low eight bits (\<open>word_of_int\<close>).  An \<open>int\<close> has 32 bits.  Where
  the value of an \<open>int\<close> expression depends on what the caller passes in (the sum of the
  channel readings and its double, twice a key count), the result is wrapped into
  \<open>- 2 ^ 31 .. 2 ^ 31 - 1\<close> by \<open>wrap32\<close>, which is what the target does (the language
  leaves signed overflow undefined).  The other \<open>int\<close> values (tick counters, positions,
  sums of four queue entries) stay far from the limits and are plain integers.
\<close>

type_synonym schar = "8 word"
type_synonym uchar = "8 word"

definition wrap32 :: "int \<Rightarrow> int" where
  "wrap32 x = (x + 2 ^ 31) mod 2 ^ 32 - 2 ^ 31"

text \<open>C++ integer division truncates toward zero.\<close>

definition cdiv :: "int \<Rightarrow> int \<Rightarrow> int" where
  "cdiv a b = (if (a < 0) = (b < 0) then \<bar>a\<bar> div \<bar>b\<bar> else - (\<bar>a\<bar> div \<bar>b\<bar>))"

definition KEY_VOLUME_UP :: int where "KEY_VOLUME_UP = 0"
definition KEY_VOLUME_DOWN :: int where "KEY_VOLUME_DOWN = 1"
definition KEY_BRIGHTNESS_UP :: int where "KEY_BRIGHTNESS_UP = 2"
definition KEY_BRIGHTNESS_DOWN :: int where "KEY_BRIGHTNESS_DOWN = 3"
definition KEY_MIC_MUTE :: int where "KEY_MIC_MUTE = 4"
definition KEY_LOCK_WORKSTATION :: int where "KEY_LOCK_WORKSTATION = 5"

section \<open>GestureDecoder (gesture.cpp)\<close>

text \<open>
  The decoder talks to its \<open>KeyReporter\<close> only through the two virtual methods
  \<open>reportKey\<close> and \<open>reportScroll\<close>; the calls it makes are recorded, in order, in the
  field \<open>reported\<close>.
\<close>

datatype KeyReporterCall = ReportKey int int | ReportScroll int

text \<open>
  \<open>deviceConfiguration->data.fields\<close>: its declaration is not part of the sources at hand;
  \<open>flip\<close> is used as a truth value, \<open>scale\<close> as an integer factor, and \<open>function\<close> (here
  \<open>func\<close>) is switched on with three cases and no default.
\<close>

datatype DeviceFunction =
  DEVICE_FUNCTION_VOLUME | DEVICE_FUNCTION_BRIGHTNESS | DEVICE_FUNCTION_SCROLL
  | DEVICE_FUNCTION_OTHER

record DeviceConfiguration =
  flip :: bool
  scale :: int
  func :: DeviceFunction

definition queueSize :: nat where "queueSize = 4"
definition TAP_MAX_DURATION :: int where "TAP_MAX_DURATION = 15"
definition DOUBLE_TAP_WINDOW :: int where "DOUBLE_TAP_WINDOW = 20"

record GestureDecoder =
  oldFingerPos :: int
  queue :: "schar list"
  touchStartTime :: int
  lastTapTime :: int
  currentTime :: int
  hasMoved :: bool
  isTouching :: bool
  waitingForDoubleTap :: bool
  releaseProcessed :: bool
  reported :: "KeyReporterCall list"

text \<open>The member initialisers; the queue of the (static) decoder object starts zeroed.\<close>

definition initialDecoder :: GestureDecoder where
  "initialDecoder = \<lparr> oldFingerPos = - 1, queue = [0, 0, 0, 0], touchStartTime = 0,
     lastTapTime = 0, currentTime = 0, hasMoved = False, isTouching = False,
     waitingForDoubleTap = False, releaseProcessed = True, reported = [] \<rparr>"

subsection \<open>checkSensor\<close>

text \<open>
  One sample of the touch sensor is the list of its channel readings
  (\<open>getChannelCount\<close> is its length, \<open>getChannel i\<close> its \<open>i\<close>-th element).
  \<open>scanChannel\<close> is the body of the loop over the channels, on the triple
  \<open>(max, avg, maxIndex)\<close>.
\<close>

definition scanChannel :: "int list \<Rightarrow> nat \<Rightarrow> int \<times> int \<times> int \<Rightarrow> int \<times> int \<times> int" where
  "scanChannel chans i = (\<lambda>(mx, avg, maxIndex).
     let v = chans ! i in
     if v > mx then (v, wrap32 (avg + v), int i) else (mx, wrap32 (avg + v), maxIndex))"

text \<open>
  Lines 62--82 of \<open>checkSensor\<close>: the new finger position, \<open>- 1\<close> for no contact.
  With no channel at all the division \<open>avg / channelCount\<close> is a division by zero: \<open>None\<close>.
\<close>

definition newFingerPos :: "int list \<Rightarrow> int option" where
  "newFingerPos chans =
    (let channelCount = length chans;
         (mx, avg, maxIndex) = fold (scanChannel chans) [0..<channelCount] (0, 0, 0)
     in if channelCount = 0 then None
        else let avg = cdiv avg (int channelCount)
             in Some (if mx > wrap32 (avg * 2) then maxIndex else - 1))"

definition checkSensor :: "DeviceConfiguration \<Rightarrow> int list \<Rightarrow> GestureDecoder \<Rightarrow> GestureDecoder option" where
  "checkSensor cfg chans s =
    (case newFingerPos chans of
       None \<Rightarrow> None
     | Some p \<Rightarrow>
        let s1 = (if p \<ge> 0 \<and> \<not> isTouching s
                  then s\<lparr> isTouching := True, touchStartTime := currentTime s,
                          hasMoved := False, releaseProcessed := False \<rparr>
                  else if p < 0 \<and> isTouching s then s\<lparr> isTouching := False \<rparr>
                  else s);
            s2 = (if p \<noteq> oldFingerPos s1 \<and> p \<ge> 0 \<and> oldFingerPos s1 \<ge> 0
                  then let change = oldFingerPos s1 - p in
                       if change \<noteq> 0
                       then let change = (if flip cfg then - change else change) in
                            s1\<lparr> hasMoved := True,
                                 queue := (queue s1)[0 := word_of_int (change * scale cfg)] \<rparr>
                       else s1
                  else s1)
        in Some (s2\<lparr> oldFingerPos := p \<rparr>))"

subsection \<open>checkTap\<close>

definition reportKeyCall :: "int \<Rightarrow> int \<Rightarrow> GestureDecoder \<Rightarrow> GestureDecoder" where
  "reportKeyCall k n s = s\<lparr> reported := reported s @ [ReportKey k n] \<rparr>"

definition reportScrollCall :: "int \<Rightarrow> GestureDecoder \<Rightarrow> GestureDecoder" where
  "reportScrollCall n s = s\<lparr> reported := reported s @ [ReportScroll n] \<rparr>"

definition checkTap :: "GestureDecoder \<Rightarrow> GestureDecoder" where
  "checkTap s =
    (let s1 = (if \<not> isTouching s \<and> \<not> releaseProcessed s
               then let s' = s\<lparr> releaseProcessed := True \<rparr>;
                        touchDuration = currentTime s' - touchStartTime s'
                    in if touchDuration < TAP_MAX_DURATION \<and> touchDuration > 0 \<and> \<not> hasMoved s'
                       then if waitingForDoubleTap s'
                               \<and> currentTime s' - lastTapTime s' < DOUBLE_TAP_WINDOW
                            then (reportKeyCall KEY_LOCK_WORKSTATION 1 s')
                                   \<lparr> waitingForDoubleTap := False \<rparr>
                            else s'\<lparr> waitingForDoubleTap := True, lastTapTime := currentTime s' \<rparr>
                       else s'
               else s)
     in if waitingForDoubleTap s1 \<and> currentTime s1 - lastTapTime s1 \<ge> DOUBLE_TAP_WINDOW
        then (reportKeyCall KEY_MIC_MUTE 1 s1)\<lparr> waitingForDoubleTap := False \<rparr>
        else s1)"

subsection \<open>optimizeQueue\<close>

text \<open>The bodies of the three loops of \<open>optimizeQueue\<close>, each at index \<open>i\<close>.\<close>

definition countSides :: "schar list \<Rightarrow> nat \<Rightarrow> int \<times> int \<Rightarrow> int \<times> int" where
  "countSides q i = (\<lambda>(positives, negatives).
     (if sint (q ! i) > 0 then positives + sint (q ! i) else positives,
      if sint (q ! i) < 0 then negatives - sint (q ! i) else negatives))"

definition clearSide :: "int \<Rightarrow> nat \<Rightarrow> schar list \<Rightarrow> schar list" where
  "clearSide side i q = (if sint (q ! i) * side > 0 then q[i := 0] else q)"

definition absorb :: "int \<Rightarrow> nat \<Rightarrow> schar list \<times> int \<Rightarrow> schar list \<times> int" where
  "absorb side i = (\<lambda>(q, correction).
     let v = sint (q ! i);
         v = (if v < 0 then - v else v);
         c = (if correction > v then v else correction)
     in (q[i := word_of_int (sint (q ! i) + c * side)], correction - c))"

definition optimizeQueue :: "GestureDecoder \<Rightarrow> GestureDecoder" where
  "optimizeQueue s =
    (let (positives, negatives) = fold (countSides (queue s)) [0..<queueSize] (0, 0);
         (correction, side) = (if positives > negatives then (negatives, - 1) else (positives, 1));
         q1 = fold (clearSide side) [0..<queueSize] (queue s);
         (q2, correction) = fold (absorb side) (rev [0..<queueSize]) (q1, correction)
     in s\<lparr> queue := q2 \<rparr>)"

subsection \<open>checkQueue\<close>

definition reportUpDown :: "int \<Rightarrow> int \<Rightarrow> int \<Rightarrow> GestureDecoder \<Rightarrow> GestureDecoder" where
  "reportUpDown up down change s =
    (let s1 = (if change > 0 then reportKeyCall up change s else s)
     in if change < 0 then reportKeyCall down (- change) s1 else s1)"

definition checkQueue :: "DeviceConfiguration \<Rightarrow> GestureDecoder \<Rightarrow> GestureDecoder" where
  "checkQueue cfg s =
    (let change = sint (queue s ! (queueSize - 1));
         s1 = (case func cfg of
                 DEVICE_FUNCTION_VOLUME \<Rightarrow> reportUpDown KEY_VOLUME_UP KEY_VOLUME_DOWN change s
               | DEVICE_FUNCTION_BRIGHTNESS \<Rightarrow>
                   reportUpDown KEY_BRIGHTNESS_UP KEY_BRIGHTNESS_DOWN change s
               | DEVICE_FUNCTION_SCROLL \<Rightarrow> reportScrollCall change s
               | DEVICE_FUNCTION_OTHER \<Rightarrow> s);
         q = fold (\<lambda>i q. q[i + 1 := q ! i]) (rev [0..<queueSize - 1]) (queue s1)
     in s1\<lparr> queue := q[0 := 0] \<rparr>)"

subsection \<open>onTimer\<close>

definition onTimer :: "DeviceConfiguration \<Rightarrow> int list \<Rightarrow> GestureDecoder \<Rightarrow> GestureDecoder option" where
  "onTimer cfg chans s =
    (case checkSensor cfg chans (s\<lparr> currentTime := currentTime s + 1 \<rparr>) of
       None \<Rightarrow> None
     | Some s1 \<Rightarrow> Some (checkQueue cfg (optimizeQueue (checkTap s1))))"

text \<open>A run of ticks, one sensor sample per tick.\<close>

fun runTicks :: "DeviceConfiguration \<Rightarrow> int list list \<Rightarrow> GestureDecoder \<Rightarrow> GestureDecoder option" where
  "runTicks cfg [] s = Some s"
| "runTicks cfg (chans # rest) s =
    (case onTimer cfg chans s of None \<Rightarrow> None | Some s' \<Rightarrow> runTicks cfg rest s')"

text \<open>A configuration for examples: volume function, no flip, scale 1.\<close>

definition volumeConfig :: DeviceConfiguration where
  "volumeConfig = \<lparr> flip = False, scale = 1, func = DEVICE_FUNCTION_VOLUME \<rparr>"

subsection \<open>Comparing runs\<close>

text \<open>
  For comparing the reports of two runs.  \<open>scaleCall m\<close> multiplies the signed value of
  a slide report by \<open>m\<close>: a scroll value is multiplied; an up or down key keeps its side
  for \<open>m > 0\<close> and changes it for \<open>m < 0\<close>, with the count multiplied by \<open>\<bar>m\<bar>\<close>; the tap
  keys are left alone.
\<close>

fun scaleCall :: "int \<Rightarrow> KeyReporterCall \<Rightarrow> KeyReporterCall" where
  "scaleCall m (ReportScroll v) = ReportScroll (m * v)"
| "scaleCall m (ReportKey k v) =
    (if k = KEY_VOLUME_UP
     then ReportKey (if m < 0 then KEY_VOLUME_DOWN else KEY_VOLUME_UP) (\<bar>m\<bar> * v)
     else if k = KEY_VOLUME_DOWN
     then ReportKey (if m < 0 then KEY_VOLUME_UP else KEY_VOLUME_DOWN) (\<bar>m\<bar> * v)
     else if k = KEY_BRIGHTNESS_UP
     then ReportKey (if m < 0 then KEY_BRIGHTNESS_DOWN else KEY_BRIGHTNESS_UP) (\<bar>m\<bar> * v)
     else if k = KEY_BRIGHTNESS_DOWN
     then ReportKey (if m < 0 then KEY_BRIGHTNESS_UP else KEY_BRIGHTNESS_DOWN) (\<bar>m\<bar> * v)
     else ReportKey k v)"

text \<open>
  The same on a queue entry and on a decoder state: \<open>scaledDecoder r s\<close> is \<open>s\<close> with every
  queue entry and every slide report so far multiplied by \<open>r\<close>.
\<close>

definition scaleEntry :: "int \<Rightarrow> schar \<Rightarrow> schar" where
  "scaleEntry r x = word_of_int (r * sint x)"

definition scaledDecoder :: "int \<Rightarrow> GestureDecoder \<Rightarrow> GestureDecoder" where
  "scaledDecoder r s =
     s\<lparr> queue := map (scaleEntry r) (queue s),
        reported := map (scaleCall r) (reported s) \<rparr>"

text \<open>
  \<open>deltasFit k samples old\<close>: along the samples, starting from finger position \<open>old\<close>,
  every delta that \<open>checkSensor\<close> enters has a product with \<open>k\<close> of magnitude at most 127.
\<close>

fun deltasFit :: "int \<Rightarrow> int list list \<Rightarrow> int \<Rightarrow> bool" where
  "deltasFit k [] old = True"
| "deltasFit k (chans # rest) old =
    (case newFingerPos chans of
       None \<Rightarrow> True
     | Some p \<Rightarrow>
         (if 0 \<le> p \<and> 0 \<le> old \<and> p \<noteq> old then \<bar>(old - p) * k\<bar> \<le> 127 else True)
         \<and> deltasFit k rest p)"

text \<open>
  What \<open>checkQueue\<close> reports for the value \<open>v\<close> of the oldest slot under function \<open>f\<close>
  (lemma \<open>checkQueue_eq\<close> below).
\<close>

definition slideCalls :: "DeviceFunction \<Rightarrow> int \<Rightarrow> KeyReporterCall list" where
  "slideCalls f v =
    (case f of
       DEVICE_FUNCTION_VOLUME \<Rightarrow>
         (if v > 0 then [ReportKey KEY_VOLUME_UP v]
          else if v < 0 then [ReportKey KEY_VOLUME_DOWN (- v)] else [])
     | DEVICE_FUNCTION_BRIGHTNESS \<Rightarrow>
         (if v > 0 then [ReportKey KEY_BRIGHTNESS_UP v]
          else if v < 0 then [ReportKey KEY_BRIGHTNESS_DOWN (- v)] else [])
     | DEVICE_FUNCTION_SCROLL \<Rightarrow> [ReportScroll v]
     | DEVICE_FUNCTION_OTHER \<Rightarrow> [])"

text \<open>The signed factor a configuration applies to a delta: \<open>scale\<close>, negated by \<open>flip\<close>.\<close>

definition factor :: "DeviceConfiguration \<Rightarrow> int" where
  "factor cfg = (if flip cfg then - scale cfg else scale cfg)"

section \<open>HID endpoint and interface (keys.cpp)\<close>

definition HID_GET_DESCRIPTOR :: int where "HID_GET_DESCRIPTOR = 0x06"
definition HID_DESCRIPTOR_TYPE_HID :: int where "HID_DESCRIPTOR_TYPE_HID = 0x21"
definition HID_DESCRIPTOR_TYPE_REPORT :: int where "HID_DESCRIPTOR_TYPE_REPORT = 0x22"

definition hidReportDescriptor :: "uchar list" where
  "hidReportDescriptor =
    [
     0x05, 0x0C,
     0x09, 0x01,
     0xA1, 0x01,
     0x09, 0xE9,
     0x09, 0xEA,
     0x09, 0x6F,
     0x09, 0x70,
     0x09, 0xF8,
     0x15, 0x00,
     0x25, 0x01,
     0x75, 0x01,
     0x95, 0x05,
     0x81, 0x02,
     0x95, 0x03,
     0x81, 0x03,
     0xC0,
     0x05, 0x01,
     0x09, 0x02,
     0xA1, 0x01,
     0x09, 0x01,
     0xA1, 0x00,
     0x09, 0x38,
     0x15, 0x81,
     0x25, 0x7F,
     0x75, 0x08,
     0x95, 0x01,
     0x81, 0x06,
     0xC0,
     0xC0,
     0x05, 0x01,
     0x09, 0x06,
     0xA1, 0x01,
     0x05, 0x07,
     0x19, 0xE0,
     0x29, 0xE7,
     0x15, 0x00,
     0x25, 0x01,
     0x75, 0x01,
     0x95, 0x08,
     0x81, 0x02,
     0x05, 0x07,
     0x19, 0x00,
     0x29, 0x65,
     0x15, 0x00,
     0x25, 0x65,
     0x75, 0x08,
     0x95, 0x01,
     0x81, 0x00,
     0xC0
    ]"

definition MODIFIER_LEFT_GUI :: uchar where "MODIFIER_LEFT_GUI = 0x08"
definition KEY_CODE_L :: uchar where "KEY_CODE_L = 0x0F"

subsection \<open>HidEndpoint\<close>

text \<open>
  \<open>startTx\<close> belongs to the USB library; what it is asked to send, the first
  \<open>sizeof(txBuffer) = 4\<close> bytes of \<open>txBuffer\<close> at the time of the call, is appended to
  \<open>transmitted\<close>.
\<close>

record HidEndpoint =
  key :: int
  count :: int
  scroll :: int
  txBuffer :: "uchar list"
  transmitted :: "uchar list list"

text \<open>
  \<open>(1 << key)\<close> stored into an \<open>unsigned char\<close>.  A shift by a negative amount or by 32
  and more is undefined in C++: there the model fixes no value, and nothing is proved
  about it.  The keys of this program are \<open>0\<close> to \<open>5\<close>.
\<close>

definition keyBit :: "int \<Rightarrow> uchar" where
  "keyBit k = (if 0 \<le> k \<and> k < 32 then word_of_int (push_bit (nat k) 1) else undefined)"

definition sendReport :: "HidEndpoint \<Rightarrow> HidEndpoint" where
  "sendReport e =
    (let buf = (txBuffer e)[0 := 0, 1 := 0, 2 := 0, 3 := 0];
         (buf, cnt) =
           (if count e > 0
            then let keyDown = (count e AND 1 = 0);
                     buf = (if key e = KEY_LOCK_WORKSTATION
                            then (if keyDown then buf[2 := MODIFIER_LEFT_GUI, 3 := KEY_CODE_L]
                                  else buf)
                            else (if keyDown then buf[0 := keyBit (key e)] else buf))
                 in (buf, count e - 1)
            else (buf, count e));
         buf = buf[1 := word_of_int (scroll e)]
     in e\<lparr> count := cnt, scroll := 0, txBuffer := buf,
           transmitted := transmitted e @ [take 4 buf] \<rparr>)"

definition reportKey :: "int \<Rightarrow> int \<Rightarrow> HidEndpoint \<Rightarrow> HidEndpoint" where
  "reportKey k n e = (if n \<noteq> 0 then sendReport (e\<lparr> key := k, count := wrap32 (n * 2) \<rparr>) else e)"

definition reportScroll :: "int \<Rightarrow> HidEndpoint \<Rightarrow> HidEndpoint" where
  "reportScroll steps e = sendReport (e\<lparr> key := 0, count := 0, scroll := steps \<rparr>)"

definition txComplete :: "HidEndpoint \<Rightarrow> HidEndpoint" where
  "txComplete e = (if count e \<noteq> 0 then sendReport e else e)"

text \<open>The member initialisers of \<open>HidEndpoint\<close>, the buffer of the (static) object zeroed.\<close>

definition initialEndpoint :: HidEndpoint where
  "initialEndpoint = \<lparr> key = 0, count = 0, scroll = 0, txBuffer = [0, 0, 0, 0], transmitted = [] \<rparr>"

text \<open>
  For stating what is sent: the four report bytes of the down phase (\<open>down\<close> true) and of
  the up phase of key \<open>k\<close>, with scroll value \<open>sc\<close> in byte 1.
\<close>

definition keyReport :: "int \<Rightarrow> bool \<Rightarrow> int \<Rightarrow> uchar list" where
  "keyReport k down sc =
    (if down
     then (if k = KEY_LOCK_WORKSTATION
           then [0, word_of_int sc, MODIFIER_LEFT_GUI, KEY_CODE_L]
           else [keyBit k, word_of_int sc, 0, 0])
     else [0, word_of_int sc, 0, 0])"

subsection \<open>HidInterface::setup\<close>

text \<open>
  \<open>SetupData\<close> is declared by the USB library: the eight bytes of a USB setup packet.
  The control endpoint is the library's too; the model keeps its transmit buffer and the
  calls \<open>HidInterface::setup\<close> makes on it (\<open>startTx\<close> with the bytes it is asked to send, or \<open>stall\<close>).
  \<open>memcpy\<close> into the buffer presumes room for the descriptor.
\<close>

record SetupData =
  bmRequestType :: "8 word"
  bRequest :: "8 word"
  wValue :: "16 word"
  wIndex :: "16 word"
  wLength :: "16 word"

datatype ControlCall = StartTx "uchar list" | Stall

record ControlEndpoint =
  ctlTxBuffer :: "uchar list"
  ctlCalls :: "ControlCall list"

text \<open>
  The condition as C++ parses it: \<open>==\<close> binds tighter than \<open>|\<close>, which binds tighter than
  \<open>&&\<close>, so the middle conjunct is \<open>(wValue == (HID_DESCRIPTOR_TYPE_REPORT << 8)) | 0\<close>.
\<close>

definition HidInterface_setup :: "SetupData \<Rightarrow> ControlEndpoint \<Rightarrow> ControlEndpoint" where
  "HidInterface_setup req endpoint =
    (if uint (bRequest req) = HID_GET_DESCRIPTOR
        \<and> ((of_bool (uint (wValue req) = push_bit 8 HID_DESCRIPTOR_TYPE_REPORT) OR 0) \<noteq> (0 :: int))
        \<and> uint (wIndex req) = 0
     then let n = length hidReportDescriptor;
              buf = hidReportDescriptor @ drop n (ctlTxBuffer endpoint)
          in endpoint\<lparr> ctlTxBuffer := buf, ctlCalls := ctlCalls endpoint @ [StartTx (take n buf)] \<rparr>
     else endpoint\<lparr> ctlCalls := ctlCalls endpoint @ [Stall] \<rparr>)"

section \<open>The position tracker\<close>

lemma wrap32_id: "- (2 ^ 31) \<le> x \<Longrightarrow> x < 2 ^ 31 \<Longrightarrow> wrap32 x = x"
  by (simp add: wrap32_def)

lemma sum_list_take_le:
  assumes "\<forall>v\<in>set xs. (0 :: int) \<le> v"
  shows "0 \<le> sum_list (take n xs) \<and> sum_list (take n xs) \<le> sum_list xs"
proof -
  have "sum_list (take n xs) + sum_list (drop n xs) = sum_list xs"
    by (simp flip: sum_list_append)
  moreover have "0 \<le> sum_list (drop n xs)"
    using assms by (intro sum_list_nonneg) (auto dest: in_set_dropD)
  moreover have "0 \<le> sum_list (take n xs)"
    using assms by (intro sum_list_nonneg) (auto dest: in_set_takeD)
  ultimately show ?thesis by linarith
qed

text \<open>The loop over the channels: sum, maximum and the index of its first occurrence.\<close>

lemma scan_inv:
  assumes "n \<le> length chans" "\<forall>v\<in>set chans. 0 \<le> v" "sum_list chans < 2 ^ 30"
  shows "\<exists>mx mi. fold (scanChannel chans) [0..<n] (0, 0, 0) = (mx, sum_list (take n chans), mi)
     \<and> mx = Max (set (0 # take n chans))
     \<and> (mx > 0 \<longrightarrow> 0 \<le> mi \<and> nat mi < n \<and> chans ! nat mi = mx \<and> (\<forall>j<nat mi. chans ! j < mx))"
  using assms
proof (induction n)
  case 0
  then show ?case by simp
next
  case (Suc n)
  then obtain mx mi where f: "fold (scanChannel chans) [0..<n] (0, 0, 0) = (mx, sum_list (take n chans), mi)"
    and m: "mx = Max (set (0 # take n chans))"
    and i: "mx > 0 \<longrightarrow> 0 \<le> mi \<and> nat mi < n \<and> chans ! nat mi = mx \<and> (\<forall>j<nat mi. chans ! j < mx)"
    by auto
  have n: "n < length chans" using Suc.prems by simp
  have tk: "take (Suc n) chans = take n chans @ [chans ! n]"
    using n by (simp add: take_Suc_conv_app_nth)
  have mx': "Max (set (0 # take (Suc n) chans)) = max mx (chans ! n)"
  proof -
    have "set (0 # take (Suc n) chans) = insert (chans ! n) (set (0 # take n chans))"
      unfolding tk by auto
    then have "Max (set (0 # take (Suc n) chans)) = max (chans ! n) (Max (set (0 # take n chans)))"
      using Max_insert [of "set (0 # take n chans)" "chans ! n"] by simp
    then show ?thesis using m by (simp add: max.commute)
  qed
  have below: "\<forall>j<n. chans ! j \<le> mx"
  proof (intro allI impI)
    fix j assume "j < n"
    then have "chans ! j \<in> set (take n chans)" using n
      by (metis in_set_conv_nth length_take min.absorb2 nth_take less_imp_le_nat)
    then show "chans ! j \<le> mx" unfolding m by simp
  qed
  have step: "fold (scanChannel chans) [0..<Suc n] (0, 0, 0)
      = scanChannel chans n (mx, sum_list (take n chans), mi)"
    using f by simp
  have sm: "sum_list (take (Suc n) chans) = sum_list (take n chans) + chans ! n"
    unfolding tk by simp
  have "0 \<le> sum_list (take (Suc n) chans)" "sum_list (take (Suc n) chans) < 2 ^ 30"
    using sum_list_take_le [OF Suc.prems(2), of "Suc n"] Suc.prems(3) by simp_all
  then have wr: "wrap32 (sum_list (take n chans) + chans ! n) = sum_list (take n chans) + chans ! n"
    unfolding sm by (intro wrap32_id) simp_all
  show ?case
  proof (cases "chans ! n > mx")
    case True
    have "mx \<ge> 0" unfolding m by simp
    with True have pos: "chans ! n > 0" by simp
    have "fold (scanChannel chans) [0..<Suc n] (0, 0, 0)
        = (chans ! n, sum_list (take (Suc n) chans), int n)"
      unfolding step sm using True by (simp add: scanChannel_def Let_def wr)
    moreover have "chans ! n = Max (set (0 # take (Suc n) chans))"
      unfolding mx' using True by simp
    moreover have "\<forall>j<n. chans ! j < chans ! n" using below True by fastforce
    ultimately show ?thesis by simp
  next
    case False
    have "fold (scanChannel chans) [0..<Suc n] (0, 0, 0)
        = (mx, sum_list (take (Suc n) chans), mi)"
      unfolding step sm using False by (simp add: scanChannel_def Let_def wr)
    moreover have "mx = Max (set (0 # take (Suc n) chans))"
      unfolding mx' using False by simp
    ultimately show ?thesis using i by (simp add: less_Suc_eq)
  qed
qed

lemma cdiv_nonneg: "0 \<le> a \<Longrightarrow> 0 < b \<Longrightarrow> cdiv a b = a div b"
  by (simp add: cdiv_def)

lemma Max_nonneg_list:
  assumes "chans \<noteq> []" "\<forall>v\<in>set chans. (0::int) \<le> v"
  shows "Max (set (0 # chans)) = Max (set chans)"
proof -
  have "Max (set chans) \<in> set chans" using assms(1) by (simp add: Max_in)
  then have "0 \<le> Max (set chans)" using assms(2) by blast
  then show ?thesis using assms(1) by (simp add: max.absorb2)
qed

text \<open>
  Claim C1 (as amended).  For a sample of N \<ge> 1 non-negative channel readings whose sum
  is below \<open>2 ^ 30\<close> (so that neither the 32-bit sum nor its double overflows), with the
  average taken as the code takes it, the integer quotient of the sum by N: when the
  greatest reading is at most twice that average the position is \<open>- 1\<close> (no contact);
  when it exceeds twice that average the position is the index of the first channel that
  holds the greatest reading.
\<close>

theorem newFingerPos_threshold:
  assumes "chans \<noteq> []" "\<forall>v\<in>set chans. 0 \<le> v" "sum_list chans < 2 ^ 30"
  shows "(Max (set chans) \<le> 2 * (sum_list chans div int (length chans))
            \<longrightarrow> newFingerPos chans = Some (- 1))
       \<and> (Max (set chans) > 2 * (sum_list chans div int (length chans))
            \<longrightarrow> (\<exists>i<length chans. newFingerPos chans = Some (int i)
                     \<and> chans ! i = Max (set chans) \<and> (\<forall>j<i. chans ! j < chans ! i)))"
proof -
  obtain mx mi where f: "fold (scanChannel chans) [0..<length chans] (0, 0, 0) = (mx, sum_list chans, mi)"
    and m: "mx = Max (set (0 # chans))"
    and i: "mx > 0 \<longrightarrow> 0 \<le> mi \<and> nat mi < length chans \<and> chans ! nat mi = mx \<and> (\<forall>j<nat mi. chans ! j < mx)"
    using scan_inv [of "length chans" chans] assms(2,3) by auto
  have mx: "mx = Max (set chans)" using m Max_nonneg_list [OF assms(1,2)] by simp
  have s0: "0 \<le> sum_list chans" using assms(2) by (simp add: sum_list_nonneg)
  have l0: "0 < int (length chans)" using assms(1) by simp
  have a0: "0 \<le> sum_list chans div int (length chans)"
    using s0 l0 by (simp add: pos_imp_zdiv_nonneg_iff)
  have "sum_list chans div int (length chans) \<le> sum_list chans div 1"
    using s0 l0 by (intro zdiv_mono2) (simp_all add: Suc_le_eq)
  then have a1: "sum_list chans div int (length chans) < 2 ^ 30"
    using assms(3) by simp
  have wr: "wrap32 (sum_list chans div int (length chans) * 2)
      = sum_list chans div int (length chans) * 2"
    using a0 a1 by (intro wrap32_id) simp_all
  have r: "newFingerPos chans
      = Some (if mx > (sum_list chans div int (length chans)) * 2 then mi else - 1)"
    using assms(1) f by (simp add: newFingerPos_def cdiv_nonneg [OF s0 l0] wr)
  show ?thesis
  proof (intro conjI impI)
    assume "Max (set chans) \<le> 2 * (sum_list chans div int (length chans))"
    then show "newFingerPos chans = Some (- 1)" using r mx by simp
  next
    assume gt: "Max (set chans) > 2 * (sum_list chans div int (length chans))"
    then have "mx > 0" using a0 mx by linarith
    with i have "0 \<le> mi" "nat mi < length chans" "chans ! nat mi = mx" "\<forall>j<nat mi. chans ! j < mx"
      by auto
    moreover have "newFingerPos chans = Some (int (nat mi))" using r gt mx \<open>0 \<le> mi\<close> by simp
    ultimately show "\<exists>i<length chans. newFingerPos chans = Some (int i)
                     \<and> chans ! i = Max (set chans) \<and> (\<forall>j<i. chans ! j < chans ! i)"
      using mx by metis
  qed
qed

theorem newFingerPos_threshold_witness:
  "[0, 10, 0, 1] \<noteq> ([] :: int list) \<and> sum_list [0, 10, 0, 1 :: int] < 2 ^ 30
   \<and> newFingerPos [0, 10, 0, 1] = Some 1
   \<and> Max (set [0, 10, 0, 1 :: int]) > 2 * (sum_list [0, 10, 0, 1] div int (length [0, 10, 0, 1 :: int]))"
proof -
  have h1: "[0, 10, 0, 1] \<noteq> ([] :: int list)" by simp
  have h2: "\<forall>v\<in>set [0, 10, 0, 1 :: int]. 0 \<le> v" by simp
  have h3: "sum_list [0, 10, 0, 1 :: int] < 2 ^ 30" by simp
  have gt: "Max (set [0, 10, 0, 1 :: int]) > 2 * (sum_list [0, 10, 0, 1] div int (length [0, 10, 0, 1 :: int]))"
    by simp
  from newFingerPos_threshold [OF h1 h2 h3] gt
  obtain i where "i < length [0, 10, 0, 1 :: int]" "newFingerPos [0, 10, 0, 1] = Some (int i)"
    "[0, 10, 0, 1 :: int] ! i = Max (set [0, 10, 0, 1])" by blast
  moreover have "Max (set [0, 10, 0, 1 :: int]) = 10" by simp
  ultimately have "newFingerPos [0, 10, 0, 1] = Some 1"
    by (auto simp: less_Suc_eq nth_Cons' numeral_eq_Suc split: if_splits)
  then show ?thesis using h1 h3 gt by simp
qed

text \<open>
  With the average as a fraction the claim fails: for the readings 3 and 0 the maximum
  3 is at most twice the average 3/2, and yet channel 0 is reported (the code compares
  with twice the quotient 1).  And the running maximum starts at 0, so for the readings
  \<open>- 5\<close> and \<open>- 3\<close>, whose maximum at channel 1 exceeds twice their average, channel 0 is
  reported.  And for the single reading 2000000000, which is at most twice the average
  (itself), the double of the average leaves the 32-bit range and wraps to a negative
  value: channel 0 is reported.
\<close>

theorem newFingerPos_counterexample:
  "real_of_int (Max (set [3, 0])) \<le> 2 * (real_of_int (sum_list [3, 0]) / real (length [3, 0 :: int]))
   \<and> newFingerPos [3, 0] = Some 0
   \<and> real_of_int (Max (set [- 5, - 3]))
        > 2 * (real_of_int (sum_list [- 5, - 3]) / real (length [- 5, - 3 :: int]))
   \<and> [- 5, - 3 :: int] ! 1 = Max (set [- 5, - 3])
   \<and> newFingerPos [- 5, - 3] = Some 0
   \<and> real_of_int (Max (set [2000000000]))
        \<le> 2 * (real_of_int (sum_list [2000000000]) / real (length [2000000000 :: int]))
   \<and> newFingerPos [2000000000] = Some 0"
  by (simp add: newFingerPos_def scanChannel_def cdiv_def wrap32_def)

section \<open>The directional smoothing queue\<close>

text \<open>Reading and writing a \<open>signed char\<close>.\<close>

lemma sint_schar_range: "- 128 \<le> sint (w :: schar) \<and> sint w \<le> 127"
  using sint_ge [of w] sint_lt [of w] by simp

lemma sint_word_of_int_schar:
  "- 128 \<le> x \<Longrightarrow> x \<le> 127 \<Longrightarrow> sint (word_of_int x :: schar) = x"
  by (simp add: int_word_sint)

lemma sum_list_update_int:
  "i < length xs \<Longrightarrow> sum_list (xs[i := v]) = sum_list xs - xs ! i + (v :: int)"
  by (induction xs arbitrary: i) (auto simp: nth_Cons' split: nat.splits)

text \<open>The three loops of \<open>optimizeQueue\<close>, one lemma each.\<close>

lemma countSides_fold:
  "n \<le> length q \<Longrightarrow>
   fold (countSides q) [0..<n] (p, m)
     = (p + (\<Sum>x\<leftarrow>take n q. max 0 (sint x)), m + (\<Sum>x\<leftarrow>take n q. max 0 (- sint x)))"
proof (induction n)
  case 0
  then show ?case by simp
next
  case (Suc n)
  then have n: "n < length q" by simp
  have tk: "take (Suc n) q = take n q @ [q ! n]"
    using n by (simp add: take_Suc_conv_app_nth)
  show ?case using Suc.IH n unfolding tk by (simp add: countSides_def)
qed

lemma clearSide_fold:
  "n \<le> length q \<Longrightarrow>
   length (fold (clearSide side) [0..<n] q) = length q
   \<and> (\<forall>i<length q. fold (clearSide side) [0..<n] q ! i
          = (if i < n \<and> sint (q ! i) * side > 0 then 0 else q ! i))"
proof (induction n)
  case 0
  then show ?case by simp
next
  case (Suc n)
  then have n: "n < length q" by simp
  let ?r = "fold (clearSide side) [0..<n] q"
  have len: "length ?r = length q" and
    nth: "\<forall>i<length q. ?r ! i = (if i < n \<and> sint (q ! i) * side > 0 then 0 else q ! i)"
    using Suc.IH n by simp_all
  have rn: "?r ! n = q ! n" using nth n by simp
  have step: "fold (clearSide side) [0..<Suc n] q = clearSide side n ?r" by simp
  show ?case unfolding step
    using len nth n rn by (auto simp: clearSide_def nth_list_update less_Suc_eq)
qed

lemma absorb_fold:
  assumes "side = 1 \<or> side = - 1"
  shows "n \<le> length q \<Longrightarrow> \<forall>x\<in>set q. sint x * side \<le> 0 \<Longrightarrow> 0 \<le> corr \<Longrightarrow>
   \<exists>q' corr'. fold (absorb side) (rev [0..<n]) (q, corr) = (q', corr')
     \<and> length q' = length q
     \<and> (\<forall>x\<in>set q'. sint x * side \<le> 0)
     \<and> sum_list (map sint q') = sum_list (map sint q) + side * (corr - corr')
     \<and> 0 \<le> corr'
     \<and> (corr \<le> (\<Sum>x\<leftarrow>take n q. \<bar>sint x\<bar>) \<longrightarrow> corr' = 0)"
proof (induction n arbitrary: q corr)
  case 0
  then show ?case by simp
next
  case (Suc n)
  then have n: "n < length q" by simp
  define x where "x = sint (q ! n)"
  define c where "c = (if corr > \<bar>x\<bar> then \<bar>x\<bar> else corr)"
  define w :: schar where "w = word_of_int (x + c * side)"
  have xs: "x * side \<le> 0" using Suc.prems(2) n unfolding x_def by simp
  have xr: "- 128 \<le> x" "x \<le> 127" using sint_schar_range [of "q ! n"] unfolding x_def by simp_all
  have c0: "0 \<le> c" "c \<le> \<bar>x\<bar>" "c \<le> corr" using Suc.prems(3) unfolding c_def by auto
  have wr: "- 128 \<le> x + c * side" "x + c * side \<le> 127"
    using assms xs xr c0 by auto
  have sw: "sint w = x + c * side" unfolding w_def using wr by (rule sint_word_of_int_schar)
  have ws: "sint w * side \<le> 0" unfolding sw using assms xs c0 by auto
  have wa: "\<bar>sint w\<bar> = \<bar>x\<bar> - c" unfolding sw using assms xs c0 by auto
  have ab: "absorb side n (q, corr) = (q[n := w], corr - c)"
    unfolding absorb_def w_def c_def x_def by (simp add: Let_def abs_if)
  have step: "fold (absorb side) (rev [0..<Suc n]) (q, corr)
      = fold (absorb side) (rev [0..<n]) (q[n := w], corr - c)"
    using ab by simp
  have inv: "\<forall>y\<in>set (q[n := w]). sint y * side \<le> 0"
    using Suc.prems(2) ws by (metis insert_iff set_update_subset_insert subsetD)
  from Suc.IH [of "q[n := w]" "corr - c"] n inv c0
  obtain q' corr' where f: "fold (absorb side) (rev [0..<n]) (q[n := w], corr - c) = (q', corr')"
    and l: "length q' = length q"
    and s: "\<forall>x\<in>set q'. sint x * side \<le> 0"
    and sm: "sum_list (map sint q') = sum_list (map sint (q[n := w])) + side * (corr - c - corr')"
    and c': "0 \<le> corr'"
    and z: "corr - c \<le> (\<Sum>x\<leftarrow>take n (q[n := w]). \<bar>sint x\<bar>) \<longrightarrow> corr' = 0"
    by auto
  have sm1: "sum_list (map sint (q[n := w])) = sum_list (map sint q) - x + sint w"
    using n by (simp add: map_update sum_list_update_int x_def)
  have sm': "sum_list (map sint q') = sum_list (map sint q) + side * (corr - corr')"
    unfolding sm sm1 sw by (simp add: algebra_simps)
  have tk: "take (Suc n) q = take n q @ [q ! n]"
    using n by (simp add: take_Suc_conv_app_nth)
  have z': "corr \<le> (\<Sum>x\<leftarrow>take (Suc n) q. \<bar>sint x\<bar>) \<longrightarrow> corr' = 0"
  proof
    assume "corr \<le> (\<Sum>x\<leftarrow>take (Suc n) q. \<bar>sint x\<bar>)"
    then have "corr \<le> (\<Sum>x\<leftarrow>take n q. \<bar>sint x\<bar>) + \<bar>x\<bar>" unfolding tk x_def by simp
    moreover have "0 \<le> (\<Sum>x\<leftarrow>take n q. \<bar>sint x\<bar>)" by (rule sum_list_nonneg) auto
    ultimately have "corr - c \<le> (\<Sum>x\<leftarrow>take n q. \<bar>sint x\<bar>)" unfolding c_def by auto
    then show "corr' = 0" using z by simp
  qed
  show ?case unfolding step f using l s sm' c' z' by simp
qed

lemma sum_pos_neg:
  "(\<Sum>x\<leftarrow>q. sint (x :: schar)) = (\<Sum>x\<leftarrow>q. max 0 (sint x)) - (\<Sum>x\<leftarrow>q. max 0 (- sint x))"
  by (induction q) auto

lemma cleared_negatives:
  "(\<Sum>x\<leftarrow>q. sint (if sint x * (- 1) > 0 then 0 else x :: schar)) = (\<Sum>x\<leftarrow>q. max 0 (sint x))"
  "(\<Sum>x\<leftarrow>q. \<bar>sint (if sint x * (- 1) > 0 then 0 else x :: schar)\<bar>) = (\<Sum>x\<leftarrow>q. max 0 (sint x))"
  by (induction q) auto

lemma cleared_positives:
  "(\<Sum>x\<leftarrow>q. sint (if sint x * 1 > 0 then 0 else x :: schar)) = - (\<Sum>x\<leftarrow>q. max 0 (- sint x))"
  "(\<Sum>x\<leftarrow>q. \<bar>sint (if sint x * 1 > 0 then 0 else x :: schar)\<bar>) = (\<Sum>x\<leftarrow>q. max 0 (- sint x))"
  by (induction q) auto

lemma clearSide_fold_all:
  "fold (clearSide side) [0..<length q] q = map (\<lambda>x. if sint x * side > 0 then 0 else x) q"
  using clearSide_fold [of "length q" q side] by (intro nth_equalityI) auto

lemma optimizeQueue_sides:
  assumes len: "length (queue s) = queueSize"
      and side: "side = 1 \<or> side = - 1"
      and fc: "fold (countSides (queue s)) [0..<queueSize] (0, 0) = (p, m)"
      and ch: "(if p > m then (m, - 1) else (p, 1)) = (corr, side)"
      and tot: "(\<Sum>x\<leftarrow>queue s. sint (if sint x * side > 0 then 0 else x)) = t"
      and mag: "corr \<le> (\<Sum>x\<leftarrow>queue s. \<bar>sint (if sint x * side > 0 then 0 else x)\<bar>)"
      and c0: "0 \<le> corr"
  shows "sum_list (map sint (queue (optimizeQueue s))) = t + side * corr
       \<and> (\<forall>x\<in>set (queue (optimizeQueue s)). sint x * side \<le> 0)
       \<and> length (queue (optimizeQueue s)) = queueSize"
proof -
  let ?q1 = "map (\<lambda>x. if sint x * side > 0 then 0 else x) (queue s)"
  have q1: "fold (clearSide side) [0..<queueSize] (queue s) = ?q1"
    using clearSide_fold_all [of side "queue s"] len by simp
  have inv: "\<forall>x\<in>set ?q1. sint x * side \<le> 0" by auto
  have mag': "corr \<le> (\<Sum>x\<leftarrow>take queueSize ?q1. \<bar>sint x\<bar>)"
    using mag len by (simp add: comp_def)
  from absorb_fold [OF side, of queueSize ?q1 corr] inv c0 len mag'
  obtain q' corr' where f: "fold (absorb side) (rev [0..<queueSize]) (?q1, corr) = (q', corr')"
    and l: "length q' = length ?q1"
    and sg: "\<forall>x\<in>set q'. sint x * side \<le> 0"
    and sm: "sum_list (map sint q') = sum_list (map sint ?q1) + side * (corr - corr')"
    and z: "corr' = 0"
    by auto
  have oq: "queue (optimizeQueue s) = q'"
    unfolding optimizeQueue_def fc using ch q1 f by (auto simp: Let_def split: if_splits)
  have "sum_list (map sint ?q1) = t" using tot by (simp add: comp_def)
  then have "sum_list (map sint q') = t + side * corr" unfolding sm z by simp
  then show ?thesis using oq sg l len by simp
qed

text \<open>
  Claim C2.  Whatever the four signed entries of the queue are, after \<open>optimizeQueue\<close>
  the entries sum to what they summed to before, which is the sum of the positive entries
  minus the sum of the magnitudes of the negative ones, and no entry is positive while
  another is negative.  (The queue still has its four entries.)
\<close>

theorem optimizeQueue_invariant:
  assumes len: "length (queue s) = queueSize"
  shows "sum_list (map sint (queue (optimizeQueue s))) = sum_list (map sint (queue s))
       \<and> sum_list (map sint (queue s))
           = (\<Sum>x\<leftarrow>queue s. max 0 (sint x)) - (\<Sum>x\<leftarrow>queue s. max 0 (- sint x))
       \<and> \<not> (\<exists>x\<in>set (queue (optimizeQueue s)). \<exists>y\<in>set (queue (optimizeQueue s)).
               0 < sint x \<and> sint y < 0)
       \<and> length (queue (optimizeQueue s)) = queueSize"
proof -
  define p where "p = (\<Sum>x\<leftarrow>queue s. max 0 (sint x))"
  define m where "m = (\<Sum>x\<leftarrow>queue s. max 0 (- sint x))"
  have fc: "fold (countSides (queue s)) [0..<queueSize] (0, 0) = (p, m)"
    using countSides_fold [of queueSize "queue s" 0 0] len by (simp add: p_def m_def)
  have p0: "0 \<le> p" unfolding p_def by (rule sum_list_nonneg) auto
  have m0: "0 \<le> m" unfolding m_def by (rule sum_list_nonneg) auto
  have tot: "sum_list (map sint (queue s)) = p - m"
    unfolding p_def m_def by (rule sum_pos_neg)
  show ?thesis
  proof (cases "p > m")
    case True
    have "sum_list (map sint (queue (optimizeQueue s))) = p + (- 1) * m
       \<and> (\<forall>x\<in>set (queue (optimizeQueue s)). sint x * (- 1) \<le> 0)
       \<and> length (queue (optimizeQueue s)) = queueSize"
    proof (rule optimizeQueue_sides [OF len _ fc, where corr = m])
      show "(if p > m then (m, - 1) else (p, 1)) = (m, - 1 :: int)" using True by simp
      show "(\<Sum>x\<leftarrow>queue s. sint (if sint x * (- 1) > 0 then 0 else x)) = p"
        unfolding cleared_negatives p_def by simp
      show "m \<le> (\<Sum>x\<leftarrow>queue s. \<bar>sint (if sint x * (- 1) > 0 then 0 else x)\<bar>)"
        unfolding cleared_negatives using True p_def by simp
    qed (use m0 in simp_all)
    then show ?thesis using tot unfolding p_def m_def by fastforce
  next
    case False
    have "sum_list (map sint (queue (optimizeQueue s))) = - m + 1 * p
       \<and> (\<forall>x\<in>set (queue (optimizeQueue s)). sint x * 1 \<le> 0)
       \<and> length (queue (optimizeQueue s)) = queueSize"
    proof (rule optimizeQueue_sides [OF len _ fc, where corr = p])
      show "(if p > m then (m, - 1) else (p, 1)) = (p, 1 :: int)" using False by simp
      show "(\<Sum>x\<leftarrow>queue s. sint (if sint x * 1 > 0 then 0 else x)) = - m"
        unfolding cleared_positives m_def by simp
      show "p \<le> (\<Sum>x\<leftarrow>queue s. \<bar>sint (if sint x * 1 > 0 then 0 else x)\<bar>)"
        unfolding cleared_positives using False m_def by simp
    qed (use p0 in simp_all)
    then show ?thesis using tot unfolding p_def m_def by fastforce
  qed
qed

theorem optimizeQueue_invariant_witness:
  "length (queue (initialDecoder\<lparr> queue := [3, - 1, 2, - 2] \<rparr>)) = queueSize
   \<and> sum_list (map sint (queue (optimizeQueue (initialDecoder\<lparr> queue := [3, - 1, 2, - 2] \<rparr>)))) = 2"
proof -
  have h: "length (queue (initialDecoder\<lparr> queue := [3, - 1, 2, - 2] \<rparr>)) = queueSize"
    by (simp add: queueSize_def)
  from optimizeQueue_invariant [OF h] show ?thesis using h by simp
qed

section \<open>The report encoder\<close>

lemma length4E:
  assumes "length xs = 4"
  obtains a b c d where "xs = [a, b, c, d]"
  using assms by (auto simp: length_Suc_conv numeral_eq_Suc)

lemma sendReport_pending:
  assumes "0 < count e" "length (txBuffer e) = 4"
  shows "sendReport e = e\<lparr> count := count e - 1, scroll := 0,
            txBuffer := keyReport (key e) (even (count e)) (scroll e),
            transmitted := transmitted e @ [keyReport (key e) (even (count e)) (scroll e)] \<rparr>"
proof -
  obtain a b c d where b: "txBuffer e = [a, b, c, d]" using assms(2) by (rule length4E)
  have par: "(count e AND 1 = 0) = even (count e)" by (simp add: and_one_eq even_iff_mod_2_eq_zero)
  show ?thesis
    unfolding sendReport_def keyReport_def b par using assms(1)
    by (simp add: Let_def numeral_eq_Suc)
qed

lemma sendReport_idle:
  assumes "count e \<le> 0" "length (txBuffer e) = 4"
  shows "sendReport e = e\<lparr> scroll := 0,
            txBuffer := [0, word_of_int (scroll e), 0, 0],
            transmitted := transmitted e @ [[0, word_of_int (scroll e), 0, 0]] \<rparr>"
proof -
  obtain a b c d where b: "txBuffer e = [a, b, c, d]" using assms(2) by (rule length4E)
  show ?thesis
    unfolding sendReport_def b using assms(1)
    by (simp add: Let_def numeral_eq_Suc)
qed

lemma reportKey_in_range:
  "0 < n \<Longrightarrow> n < 2 ^ 30 \<Longrightarrow> reportKey k n e = sendReport (e\<lparr> key := k, count := 2 * n \<rparr>)"
  by (simp add: reportKey_def wrap32_def mult.commute)

lemma reportKey_run:
  assumes n: "0 < n" "n < 2 ^ 30" and len: "length (txBuffer e) = 4"
  shows "int j < 2 * n \<Longrightarrow>
    (txComplete ^^ j) (reportKey k n e)
      = e\<lparr> key := k, count := 2 * n - 1 - int j, scroll := 0,
           txBuffer := keyReport k (even j) (if j = 0 then scroll e else 0),
           transmitted := transmitted e
              @ map (\<lambda>i. keyReport k (even i) (if i = 0 then scroll e else 0)) [0..<Suc j] \<rparr>"
proof (induction j)
  case 0
  have "reportKey k n e = sendReport (e\<lparr> key := k, count := 2 * n \<rparr>)"
    using n by (rule reportKey_in_range)
  also have "\<dots> = e\<lparr> key := k, count := 2 * n - 1, scroll := 0,
           txBuffer := keyReport k True (scroll e),
           transmitted := transmitted e @ [keyReport k True (scroll e)] \<rparr>"
    using n len by (subst sendReport_pending) simp_all
  finally show ?case by simp
next
  case (Suc j)
  let ?r = "(txComplete ^^ j) (reportKey k n e)"
  have r: "?r = e\<lparr> key := k, count := 2 * n - 1 - int j, scroll := 0,
           txBuffer := keyReport k (even j) (if j = 0 then scroll e else 0),
           transmitted := transmitted e
              @ map (\<lambda>i. keyReport k (even i) (if i = 0 then scroll e else 0)) [0..<Suc j] \<rparr>"
    using Suc by simp
  have c: "count ?r = 2 * n - 1 - int j" unfolding r by simp
  then have cpos: "0 < count ?r" using Suc.prems by simp
  have l: "length (txBuffer ?r) = 4" unfolding r by (simp add: keyReport_def)
  have ev: "even (count ?r) = even (Suc j)" unfolding c by simp
  have "(txComplete ^^ Suc j) (reportKey k n e) = sendReport ?r"
    using cpos by (simp add: txComplete_def)
  also have "\<dots> = ?r\<lparr> count := count ?r - 1, scroll := 0,
            txBuffer := keyReport (key ?r) (even (Suc j)) (scroll ?r),
            transmitted := transmitted ?r @ [keyReport (key ?r) (even (Suc j)) (scroll ?r)] \<rparr>"
    using sendReport_pending [OF cpos l] unfolding ev by simp
  also have "\<dots> = e\<lparr> key := k, count := 2 * n - 1 - int (Suc j), scroll := 0,
           txBuffer := keyReport k (even (Suc j)) (if Suc j = 0 then scroll e else 0),
           transmitted := transmitted e
              @ map (\<lambda>i. keyReport k (even i) (if i = 0 then scroll e else 0)) [0..<Suc (Suc j)] \<rparr>"
    unfolding r by simp
  finally show ?case .
qed

lemma txComplete_idle: "count e = 0 \<Longrightarrow> (txComplete ^^ j) e = e"
  by (induction j) (simp_all add: txComplete_def)

text \<open>
  Claim C3 (as amended).  For a key \<open>k\<close> whose bit \<open>1 << k\<close> is defined (\<open>0 \<le> k < 32\<close>) and
  a magnitude \<open>0 < n < 2 ^ 30\<close>, \<open>reportKey k n\<close> sets the counter to \<open>2 * n\<close> and sends; after \<open>j\<close> transmit-complete notifications the counter is
  \<open>2 * n - 1 - j\<close> (zero from then on), and what has been sent is the reports of phases
  \<open>0, 1, ...\<close> up to \<open>j\<close>, at most \<open>2 * n\<close> of them: down at even phases, up at odd
  ones, the first carrying whatever scroll value was pending.  Once \<open>2 * n\<close> reports are
  out, exactly \<open>2 * n\<close> have been sent and a further notification changes nothing.
  The down report of a key other than the lock key has the single bit \<open>2 ^ k\<close> in byte 0.
\<close>

theorem reportKey_transmissions:
  assumes n: "0 < n" "n < 2 ^ 30" and kr: "0 \<le> k" "k < 32" and len: "length (txBuffer e) = 4"
  shows "reportKey k n e = sendReport (e\<lparr> key := k, count := 2 * n \<rparr>)
    \<and> keyBit k = word_of_int (2 ^ nat k)
    \<and> (\<forall>j. count ((txComplete ^^ j) (reportKey k n e)) = max 0 (2 * n - 1 - int j)
           \<and> transmitted ((txComplete ^^ j) (reportKey k n e))
               = transmitted e
                 @ map (\<lambda>i. keyReport k (even i) (if i = 0 then scroll e else 0))
                     [0..<min (Suc j) (nat (2 * n))])
    \<and> (\<forall>j. 2 * n \<le> int (Suc j) \<longrightarrow>
           length (transmitted ((txComplete ^^ j) (reportKey k n e)))
             = length (transmitted e) + nat (2 * n)
           \<and> txComplete ((txComplete ^^ j) (reportKey k n e)) = (txComplete ^^ j) (reportKey k n e))"
proof -
  have run: "\<And>j. count ((txComplete ^^ j) (reportKey k n e)) = max 0 (2 * n - 1 - int j)
           \<and> transmitted ((txComplete ^^ j) (reportKey k n e))
               = transmitted e
                 @ map (\<lambda>i. keyReport k (even i) (if i = 0 then scroll e else 0))
                     [0..<min (Suc j) (nat (2 * n))]"
  proof -
    fix j
    show "?thesis j"
    proof (cases "int j < 2 * n")
      case True
      then have "min (Suc j) (nat (2 * n)) = Suc j" by linarith
      then show ?thesis using reportKey_run [OF n len True, of k] True by simp
    next
      case False
      define m where "m = nat (2 * n) - 1"
      have m: "int m < 2 * n" "2 * n - 1 - int m = 0" "Suc m = nat (2 * n)" "m \<le> j"
        using n False unfolding m_def by simp_all
      have st: "(txComplete ^^ m) (reportKey k n e)
        = e\<lparr> key := k, count := 0, scroll := 0,
           txBuffer := keyReport k (even m) (if m = 0 then scroll e else 0),
           transmitted := transmitted e
              @ map (\<lambda>i. keyReport k (even i) (if i = 0 then scroll e else 0)) [0..<nat (2 * n)] \<rparr>"
        using reportKey_run [OF n len m(1), of k] m(2,3) by simp
      have "(txComplete ^^ ((j - m) + m)) (reportKey k n e)
          = (txComplete ^^ (j - m)) ((txComplete ^^ m) (reportKey k n e))"
        by (simp only: funpow_add o_apply)
      then have "(txComplete ^^ j) (reportKey k n e)
          = (txComplete ^^ (j - m)) ((txComplete ^^ m) (reportKey k n e))"
        using m(4) by simp
      also have "\<dots> = (txComplete ^^ m) (reportKey k n e)"
        by (rule txComplete_idle) (simp add: st)
      finally have eq: "(txComplete ^^ j) (reportKey k n e) = (txComplete ^^ m) (reportKey k n e)" .
      have "min (Suc j) (nat (2 * n)) = nat (2 * n)" using False by linarith
      then show ?thesis unfolding eq st using False by simp
    qed
  qed
  have first: "reportKey k n e = sendReport (e\<lparr> key := k, count := 2 * n \<rparr>)"
    using n by (rule reportKey_in_range)
  have bit: "keyBit k = word_of_int (2 ^ nat k)"
    using kr by (simp add: keyBit_def push_bit_eq_mult)
  have idle: "\<And>j. 2 * n \<le> int (Suc j) \<Longrightarrow>
           length (transmitted ((txComplete ^^ j) (reportKey k n e)))
             = length (transmitted e) + nat (2 * n)
           \<and> txComplete ((txComplete ^^ j) (reportKey k n e)) = (txComplete ^^ j) (reportKey k n e)"
  proof -
    fix j assume a: "2 * n \<le> int (Suc j)"
    then have "min (Suc j) (nat (2 * n)) = nat (2 * n)" by linarith
    moreover have "count ((txComplete ^^ j) (reportKey k n e)) = 0"
      using run [of j] a by simp
    ultimately show "?thesis j" using run [of j] by (simp add: txComplete_def)
  qed
  show ?thesis using first bit run idle by blast
qed

theorem reportKey_transmissions_witness:
  "(0 :: int) < 3 \<and> (3 :: int) < 2 ^ 30 \<and> 0 \<le> KEY_VOLUME_UP \<and> KEY_VOLUME_UP < 32
   \<and> length (txBuffer initialEndpoint) = 4
   \<and> transmitted ((txComplete ^^ 9) (reportKey KEY_VOLUME_UP 3 initialEndpoint))
       = [[1, 0, 0, 0], [0, 0, 0, 0], [1, 0, 0, 0], [0, 0, 0, 0], [1, 0, 0, 0], [0, 0, 0, 0]]
   \<and> count ((txComplete ^^ 9) (reportKey KEY_VOLUME_UP 3 initialEndpoint)) = 0"
proof -
  have h1: "(0 :: int) < 3" "(3 :: int) < 2 ^ 30" by simp_all
  have hk: "0 \<le> KEY_VOLUME_UP" "KEY_VOLUME_UP < 32" by (simp_all add: KEY_VOLUME_UP_def)
  have h2: "length (txBuffer initialEndpoint) = 4" by (simp add: initialEndpoint_def)
  have up: "[0..<6] = [0, 1, 2, 3, 4, 5]" by (simp add: upt_rec)
  from reportKey_transmissions [OF h1 hk h2]
  have "count ((txComplete ^^ 9) (reportKey KEY_VOLUME_UP 3 initialEndpoint)) = max 0 (2 * 3 - 1 - int 9)
      \<and> transmitted ((txComplete ^^ 9) (reportKey KEY_VOLUME_UP 3 initialEndpoint))
          = transmitted initialEndpoint
            @ map (\<lambda>i. keyReport KEY_VOLUME_UP (even i) (if i = 0 then scroll initialEndpoint else 0))
                [0..<min (Suc 9) (nat (2 * 3))]"
    by blast
  then show ?thesis using h1 hk h2
    by (simp add: up initialEndpoint_def keyReport_def keyBit_def KEY_VOLUME_UP_def
        KEY_LOCK_WORKSTATION_def)
qed

text \<open>
  Without the bound on the magnitude the claim fails: for \<open>n = 2 ^ 30\<close> the product
  \<open>count * 2\<close> leaves the 32-bit range and the counter becomes \<open>- 2 ^ 31\<close>.
  \<open>sendReport\<close> then sends a report with no key bit and leaves the counter as it is, and
  every notification sends another one: no down phase, and no end after \<open>2 * n\<close> reports.
\<close>

theorem reportKey_transmissions_counterexample:
  "count (reportKey KEY_VOLUME_UP 1073741824 initialEndpoint) = - 2147483648
   \<and> transmitted ((txComplete ^^ 3) (reportKey KEY_VOLUME_UP 1073741824 initialEndpoint))
       = [[0, 0, 0, 0], [0, 0, 0, 0], [0, 0, 0, 0], [0, 0, 0, 0]]
   \<and> count ((txComplete ^^ 3) (reportKey KEY_VOLUME_UP 1073741824 initialEndpoint))
       = - 2147483648"
proof -
  have s: "\<And>t. sendReport \<lparr> key = 0, count = - 2147483648, scroll = 0,
        txBuffer = [0, 0, 0, 0], transmitted = t \<rparr>
      = \<lparr> key = 0, count = - 2147483648, scroll = 0,
        txBuffer = [0, 0, 0, 0], transmitted = t @ [[0, 0, 0, 0]] \<rparr>"
    by (subst sendReport_idle) simp_all
  have r: "reportKey KEY_VOLUME_UP 1073741824 initialEndpoint
      = \<lparr> key = 0, count = - 2147483648, scroll = 0,
        txBuffer = [0, 0, 0, 0], transmitted = [[0, 0, 0, 0]] \<rparr>"
    using s [of "[]"]
    by (simp add: reportKey_def wrap32_def initialEndpoint_def KEY_VOLUME_UP_def)
  show ?thesis
    unfolding r by (simp add: eval_nat_numeral txComplete_def s)
qed

text \<open>
  Claim C7.  A scroll event of value 0 sends one report, all four bytes zero; the counter
  is zero afterwards (no down/up sequence), the pending scroll value is zero, and
  transmit-complete notifications send nothing more.
\<close>

theorem reportScroll_zero:
  assumes len: "length (txBuffer e) = 4"
  shows "transmitted (reportScroll 0 e) = transmitted e @ [[0, 0, 0, 0]]
    \<and> count (reportScroll 0 e) = 0 \<and> scroll (reportScroll 0 e) = 0
    \<and> (\<forall>j. transmitted ((txComplete ^^ j) (reportScroll 0 e)) = transmitted e @ [[0, 0, 0, 0]])"
proof -
  have r: "reportScroll 0 e = e\<lparr> key := 0, count := 0, scroll := 0,
      txBuffer := [0, 0, 0, 0], transmitted := transmitted e @ [[0, 0, 0, 0]] \<rparr>"
    unfolding reportScroll_def using len by (subst sendReport_idle) simp_all
  have "\<And>j. (txComplete ^^ j) (reportScroll 0 e) = reportScroll 0 e"
    by (rule txComplete_idle) (simp add: r)
  then show ?thesis by (simp add: r)
qed

theorem reportScroll_zero_witness:
  "length (txBuffer initialEndpoint) = 4
   \<and> transmitted ((txComplete ^^ 3) (reportScroll 0 initialEndpoint)) = [[0, 0, 0, 0]]"
proof -
  have h: "length (txBuffer initialEndpoint) = 4" by (simp add: initialEndpoint_def)
  from reportScroll_zero [OF h] show ?thesis using h by (simp add: initialEndpoint_def)
qed

text \<open>
  Claim C9.  Whatever the counter is, and so also while a key sequence is under way
  (counter not zero), \<open>reportScroll\<close> sets key and counter to zero before sending: one
  report goes out with the scroll value in byte 1 and nothing else set, and no
  notification sends any of the phases that were left.  The witness interrupts a
  sequence of six reports after the first.
\<close>

theorem reportScroll_cancels_key:
  assumes len: "length (txBuffer e) = 4"
  shows "reportScroll steps e = sendReport (e\<lparr> key := 0, count := 0, scroll := steps \<rparr>)
    \<and> key (reportScroll steps e) = 0 \<and> count (reportScroll steps e) = 0
    \<and> transmitted (reportScroll steps e) = transmitted e @ [[0, word_of_int steps, 0, 0]]
    \<and> (\<forall>j. (txComplete ^^ j) (reportScroll steps e) = reportScroll steps e)"
proof -
  have d: "reportScroll steps e = sendReport (e\<lparr> key := 0, count := 0, scroll := steps \<rparr>)"
    by (simp add: reportScroll_def)
  have r: "reportScroll steps e = e\<lparr> key := 0, count := 0, scroll := 0,
      txBuffer := [0, word_of_int steps, 0, 0],
      transmitted := transmitted e @ [[0, word_of_int steps, 0, 0]] \<rparr>"
    unfolding reportScroll_def using len by (subst sendReport_idle) simp_all
  have i: "\<And>j. (txComplete ^^ j) (reportScroll steps e) = reportScroll steps e"
    by (rule txComplete_idle) (simp add: r)
  have "key (reportScroll steps e) = 0" "count (reportScroll steps e) = 0"
    "transmitted (reportScroll steps e) = transmitted e @ [[0, word_of_int steps, 0, 0]]"
    by (simp_all add: r)
  with d i show ?thesis by blast
qed

theorem reportScroll_cancels_key_witness:
  "length (txBuffer (reportKey KEY_VOLUME_UP 3 initialEndpoint)) = 4
   \<and> count (reportKey KEY_VOLUME_UP 3 initialEndpoint) = 5
   \<and> transmitted ((txComplete ^^ 8) (reportScroll 7 (reportKey KEY_VOLUME_UP 3 initialEndpoint)))
       = [[1, 0, 0, 0], [0, 7, 0, 0]]"
proof -
  have h0: "length (txBuffer initialEndpoint) = 4" by (simp add: initialEndpoint_def)
  have e: "reportKey KEY_VOLUME_UP 3 initialEndpoint
      = \<lparr> key = 0, count = 5, scroll = 0, txBuffer = [1, 0, 0, 0], transmitted = [[1, 0, 0, 0]] \<rparr>"
    using sendReport_pending [of "initialEndpoint\<lparr> key := KEY_VOLUME_UP, count := 3 * 2 \<rparr>"]
    by (simp add: reportKey_def wrap32_def initialEndpoint_def keyReport_def keyBit_def
        KEY_VOLUME_UP_def KEY_LOCK_WORKSTATION_def)
  have h1: "length (txBuffer (reportKey KEY_VOLUME_UP 3 initialEndpoint)) = 4" by (simp add: e)
  have h2: "count (reportKey KEY_VOLUME_UP 3 initialEndpoint) = 5" by (simp add: e)
  from reportScroll_cancels_key [OF h1, of 7]
  have "transmitted (reportScroll 7 (reportKey KEY_VOLUME_UP 3 initialEndpoint))
      = transmitted (reportKey KEY_VOLUME_UP 3 initialEndpoint) @ [[0, word_of_int 7, 0, 0]]"
    and "(txComplete ^^ 8) (reportScroll 7 (reportKey KEY_VOLUME_UP 3 initialEndpoint))
      = reportScroll 7 (reportKey KEY_VOLUME_UP 3 initialEndpoint)"
    by blast+
  then show ?thesis using h1 h2 by (simp add: e)
qed

text \<open>
  Claim C8.  A control request gets the 94 bytes of the report descriptor exactly when
  its \<open>bRequest\<close> is \<open>HID_GET_DESCRIPTOR\<close>, its \<open>wValue\<close> is the report type in the high
  byte with index 0, and its \<open>wIndex\<close> is 0; any other request is stalled.  (Neither
  \<open>bmRequestType\<close> nor \<open>wLength\<close> is looked at.)
\<close>

theorem setup_descriptor_request:
  "HidInterface_setup req endpoint =
    (if bRequest req = 0x06 \<and> wValue req = 0x2200 \<and> wIndex req = 0
     then endpoint\<lparr> ctlTxBuffer := hidReportDescriptor @ drop 94 (ctlTxBuffer endpoint),
                     ctlCalls := ctlCalls endpoint @ [StartTx hidReportDescriptor] \<rparr>
     else endpoint\<lparr> ctlCalls := ctlCalls endpoint @ [Stall] \<rparr>)"
proof -
  have l: "length hidReportDescriptor = 94" by (simp add: hidReportDescriptor_def)
  have a: "(uint (bRequest req) = HID_GET_DESCRIPTOR) = (bRequest req = 0x06)"
    unfolding HID_GET_DESCRIPTOR_def by (simp add: word_uint_eq_iff)
  have b: "((of_bool (uint (wValue req) = push_bit 8 HID_DESCRIPTOR_TYPE_REPORT) OR 0) \<noteq> (0 :: int))
      = (wValue req = 0x2200)"
    unfolding HID_DESCRIPTOR_TYPE_REPORT_def by (simp add: word_uint_eq_iff push_bit_eq_mult)
  have c: "(uint (wIndex req) = 0) = (wIndex req = 0)"
    by (simp add: word_uint_eq_iff)
  show ?thesis unfolding HidInterface_setup_def a b c by (simp add: l Let_def)
qed

section \<open>The tap state machine\<close>

text \<open>
  Claim C5.  On the tick \<open>checkTap\<close> first sees a release (not touching, \<open>releaseProcessed\<close>
  false), the double-tap call \<open>reportKey(KEY_LOCK_WORKSTATION, 1)\<close> is among the calls it
  makes exactly when the touch lasted more than 0 and fewer than \<open>TAP_MAX_DURATION\<close> ticks,
  the finger has not moved, a wait is open and \<open>currentTime - lastTapTime\<close> is below
  \<open>DOUBLE_TAP_WINDOW\<close>; it is then the only call and the wait is cleared.  A qualifying
  tap that is not both waiting and inside the window makes no call, sets
  \<open>waitingForDoubleTap\<close> and records \<open>lastTapTime = currentTime\<close>.
\<close>

theorem checkTap_release:
  assumes rel: "\<not> isTouching s" "\<not> releaseProcessed s"
  shows
   "(ReportKey KEY_LOCK_WORKSTATION 1 \<in> set (drop (length (reported s)) (reported (checkTap s)))
      \<longleftrightarrow> 0 < currentTime s - touchStartTime s
          \<and> currentTime s - touchStartTime s < TAP_MAX_DURATION
          \<and> \<not> hasMoved s
          \<and> waitingForDoubleTap s
          \<and> currentTime s - lastTapTime s < DOUBLE_TAP_WINDOW)
    \<and> (0 < currentTime s - touchStartTime s
          \<and> currentTime s - touchStartTime s < TAP_MAX_DURATION
          \<and> \<not> hasMoved s
          \<and> waitingForDoubleTap s
          \<and> currentTime s - lastTapTime s < DOUBLE_TAP_WINDOW
        \<longrightarrow> reported (checkTap s) = reported s @ [ReportKey KEY_LOCK_WORKSTATION 1]
            \<and> \<not> waitingForDoubleTap (checkTap s))
    \<and> (0 < currentTime s - touchStartTime s
          \<and> currentTime s - touchStartTime s < TAP_MAX_DURATION
          \<and> \<not> hasMoved s
          \<and> \<not> (waitingForDoubleTap s \<and> currentTime s - lastTapTime s < DOUBLE_TAP_WINDOW)
        \<longrightarrow> reported (checkTap s) = reported s
            \<and> waitingForDoubleTap (checkTap s)
            \<and> lastTapTime (checkTap s) = currentTime s)
    \<and> releaseProcessed (checkTap s)"
  using rel
  by (auto simp: checkTap_def reportKeyCall_def Let_def DOUBLE_TAP_WINDOW_def
      KEY_LOCK_WORKSTATION_def KEY_MIC_MUTE_def)

theorem checkTap_release_witness:
  "\<not> isTouching (initialDecoder\<lparr> currentTime := 10, touchStartTime := 7, lastTapTime := 4,
        waitingForDoubleTap := True, releaseProcessed := False \<rparr>)
   \<and> \<not> releaseProcessed (initialDecoder\<lparr> currentTime := 10, touchStartTime := 7, lastTapTime := 4,
        waitingForDoubleTap := True, releaseProcessed := False \<rparr>)
   \<and> reported (checkTap (initialDecoder\<lparr> currentTime := 10, touchStartTime := 7, lastTapTime := 4,
        waitingForDoubleTap := True, releaseProcessed := False \<rparr>))
       = [ReportKey KEY_LOCK_WORKSTATION 1]
   \<and> \<not> waitingForDoubleTap (checkTap (initialDecoder\<lparr> currentTime := 10, touchStartTime := 7,
        lastTapTime := 4, waitingForDoubleTap := True, releaseProcessed := False \<rparr>))"
proof -
  let ?s = "initialDecoder\<lparr> currentTime := 10, touchStartTime := 7, lastTapTime := 4,
        waitingForDoubleTap := True, releaseProcessed := False \<rparr>"
  have h1: "\<not> isTouching ?s" by (simp add: initialDecoder_def)
  have h2: "\<not> releaseProcessed ?s" by simp
  have c: "0 < currentTime ?s - touchStartTime ?s
          \<and> currentTime ?s - touchStartTime ?s < TAP_MAX_DURATION
          \<and> \<not> hasMoved ?s
          \<and> waitingForDoubleTap ?s
          \<and> currentTime ?s - lastTapTime ?s < DOUBLE_TAP_WINDOW"
    by (simp add: initialDecoder_def TAP_MAX_DURATION_def DOUBLE_TAP_WINDOW_def)
  have "reported ?s = []" by (simp add: initialDecoder_def)
  with checkTap_release [OF h1 h2] c h1 h2 show ?thesis by simp
qed

lemma optimizeQueue_zero: "queue s = [0, 0, 0, 0] \<Longrightarrow> optimizeQueue s = s"
  by (simp add: optimizeQueue_def queueSize_def upt_rec countSides_def clearSide_def absorb_def Let_def)

lemma checkQueue_zero:
  "queue s = [0, 0, 0, 0] \<Longrightarrow> func cfg = DEVICE_FUNCTION_VOLUME \<Longrightarrow> checkQueue cfg s = s"
  by (simp add: checkQueue_def queueSize_def upt_rec reportUpDown_def Let_def numeral_eq_Suc)

lemma pos_touch: "newFingerPos [0, 10, 0, 0] = Some 1"
  by (simp add: newFingerPos_def scanChannel_def cdiv_def wrap32_def upt_rec)

lemma pos_none: "newFingerPos [0, 0, 0, 0] = Some (- 1)"
  by (simp add: newFingerPos_def scanChannel_def cdiv_def wrap32_def upt_rec)

lemma onTimer_still:
  assumes "queue s = [0, 0, 0, 0]" "func cfg = DEVICE_FUNCTION_VOLUME"
    and "newFingerPos chans = Some p" "p = oldFingerPos s \<or> p < 0 \<or> oldFingerPos s < 0"
  shows "onTimer cfg chans s =
    Some (checkTap
      ((if p \<ge> 0 \<and> \<not> isTouching s
        then s\<lparr> currentTime := currentTime s + 1, isTouching := True,
                touchStartTime := currentTime s + 1, hasMoved := False, releaseProcessed := False \<rparr>
        else if p < 0 \<and> isTouching s
        then s\<lparr> currentTime := currentTime s + 1, isTouching := False \<rparr>
        else s\<lparr> currentTime := currentTime s + 1 \<rparr>)\<lparr> oldFingerPos := p \<rparr>))"
proof -
  let ?t = "(if p \<ge> 0 \<and> \<not> isTouching s
        then s\<lparr> currentTime := currentTime s + 1, isTouching := True,
                touchStartTime := currentTime s + 1, hasMoved := False, releaseProcessed := False \<rparr>
        else if p < 0 \<and> isTouching s
        then s\<lparr> currentTime := currentTime s + 1, isTouching := False \<rparr>
        else s\<lparr> currentTime := currentTime s + 1 \<rparr>)\<lparr> oldFingerPos := p \<rparr>"
  have cs: "checkSensor cfg chans (s\<lparr> currentTime := currentTime s + 1 \<rparr>) = Some ?t"
    using assms(3,4) by (auto simp: checkSensor_def Let_def)
  have q: "queue (checkTap ?t) = [0, 0, 0, 0]"
    using assms(1) by (simp add: checkTap_def reportKeyCall_def Let_def)
  show ?thesis
    unfolding onTimer_def cs using q assms(2)
    by (simp add: optimizeQueue_zero checkQueue_zero)
qed

lemma tick_touch:
  "queue s = [0, 0, 0, 0] \<Longrightarrow> oldFingerPos s = 1 \<or> oldFingerPos s < 0 \<Longrightarrow>
   onTimer volumeConfig [0, 10, 0, 0] s =
    Some (checkTap
      ((if \<not> isTouching s
        then s\<lparr> currentTime := currentTime s + 1, isTouching := True,
                touchStartTime := currentTime s + 1, hasMoved := False, releaseProcessed := False \<rparr>
        else s\<lparr> currentTime := currentTime s + 1 \<rparr>)\<lparr> oldFingerPos := 1 \<rparr>))"
  using onTimer_still [of s volumeConfig "[0, 10, 0, 0]" 1]
  by (auto simp: pos_touch volumeConfig_def)

lemma tick_none:
  "queue s = [0, 0, 0, 0] \<Longrightarrow>
   onTimer volumeConfig [0, 0, 0, 0] s =
    Some (checkTap
      ((if isTouching s
        then s\<lparr> currentTime := currentTime s + 1, isTouching := False \<rparr>
        else s\<lparr> currentTime := currentTime s + 1 \<rparr>)\<lparr> oldFingerPos := - 1 \<rparr>))"
  using onTimer_still [of s volumeConfig "[0, 0, 0, 0]" "- 1"]
  by (auto simp: pos_none volumeConfig_def)

lemma runTicks_append:
  "runTicks cfg (xs @ ys) s = (case runTicks cfg xs s of None \<Rightarrow> None | Some s' \<Rightarrow> runTicks cfg ys s')"
  by (induction xs arbitrary: s) (auto split: option.splits)

text \<open>
  Claim C4, on the code.  Four channels, volume function.  A tap is released at tick 2
  (the wait opens, \<open>lastTapTime = 2\<close>); a second touch from tick 12 is released at tick
  22, when \<open>currentTime - lastTapTime\<close> is 20, the window.  \<open>checkTap\<close> handles the
  release before it looks at the expiry: the tap is not inside the window, so the wait is
  started again with \<open>lastTapTime = 22\<close>, and the expiry test that follows sees a
  difference of 0.  Nothing is reported at tick 22, the wait stays open through tick 41
  (40 ticks in a row), and one single tap is reported at tick 42 for the two taps.
\<close>

theorem tap_released_at_window_expiry:
  "map_option (\<lambda>s. (currentTime s, lastTapTime s, waitingForDoubleTap s, reported s))
     (runTicks volumeConfig
        ([0, 10, 0, 0] # replicate 10 [0, 0, 0, 0] @ replicate 10 [0, 10, 0, 0]) initialDecoder)
     = Some (21, 2, True, [])
   \<and> map_option (\<lambda>s. (currentTime s, lastTapTime s, waitingForDoubleTap s, reported s))
     (runTicks volumeConfig
        ([0, 10, 0, 0] # replicate 10 [0, 0, 0, 0] @ replicate 10 [0, 10, 0, 0]
           @ [[0, 0, 0, 0]]) initialDecoder)
     = Some (22, 22, True, [])
   \<and> map_option (\<lambda>s. (currentTime s, lastTapTime s, waitingForDoubleTap s, reported s))
     (runTicks volumeConfig
        ([0, 10, 0, 0] # replicate 10 [0, 0, 0, 0] @ replicate 10 [0, 10, 0, 0]
           @ [[0, 0, 0, 0]] @ replicate 19 [0, 0, 0, 0]) initialDecoder)
     = Some (41, 22, True, [])
   \<and> map_option (\<lambda>s. (currentTime s, lastTapTime s, waitingForDoubleTap s, reported s))
     (runTicks volumeConfig
        ([0, 10, 0, 0] # replicate 10 [0, 0, 0, 0] @ replicate 10 [0, 10, 0, 0]
           @ [[0, 0, 0, 0]] @ replicate 19 [0, 0, 0, 0] @ [[0, 0, 0, 0]]) initialDecoder)
     = Some (42, 22, False, [ReportKey KEY_MIC_MUTE 1])"
proof -
  let ?pre = "[0, 10, 0, 0] # replicate 10 [0, 0, 0, 0] @ replicate 10 [0, 10, 0, 0]"
  let ?s21 = "\<lparr> oldFingerPos = 1, queue = [0, 0, 0, 0], touchStartTime = 12, lastTapTime = 2,
       currentTime = 21, hasMoved = False, isTouching = True, waitingForDoubleTap = True,
       releaseProcessed = False, reported = [] \<rparr>"
  let ?s22 = "\<lparr> oldFingerPos = - 1, queue = [0, 0, 0, 0], touchStartTime = 12, lastTapTime = 22,
       currentTime = 22, hasMoved = False, isTouching = False, waitingForDoubleTap = True,
       releaseProcessed = True, reported = [] \<rparr>"
  let ?s41 = "\<lparr> oldFingerPos = - 1, queue = [0, 0, 0, 0], touchStartTime = 12, lastTapTime = 22,
       currentTime = 41, hasMoved = False, isTouching = False, waitingForDoubleTap = True,
       releaseProcessed = True, reported = [] \<rparr>"
  let ?s42 = "\<lparr> oldFingerPos = - 1, queue = [0, 0, 0, 0], touchStartTime = 12, lastTapTime = 22,
       currentTime = 42, hasMoved = False, isTouching = False, waitingForDoubleTap = False,
       releaseProcessed = True, reported = [ReportKey KEY_MIC_MUTE 1] \<rparr>"
  have r21: "runTicks volumeConfig ?pre initialDecoder = Some ?s21"
    by (simp add: initialDecoder_def tick_touch tick_none checkTap_def reportKeyCall_def Let_def
      TAP_MAX_DURATION_def DOUBLE_TAP_WINDOW_def eval_nat_numeral)
  have r22: "runTicks volumeConfig [[0, 0, 0, 0]] ?s21 = Some ?s22"
    by (simp add: tick_none checkTap_def reportKeyCall_def Let_def
      TAP_MAX_DURATION_def DOUBLE_TAP_WINDOW_def)
  have r41: "runTicks volumeConfig (replicate 19 [0, 0, 0, 0]) ?s22 = Some ?s41"
    by (simp add: tick_none checkTap_def reportKeyCall_def Let_def
      TAP_MAX_DURATION_def DOUBLE_TAP_WINDOW_def eval_nat_numeral)
  have r42: "runTicks volumeConfig [[0, 0, 0, 0]] ?s41 = Some ?s42"
    by (simp add: tick_none checkTap_def reportKeyCall_def Let_def
      TAP_MAX_DURATION_def DOUBLE_TAP_WINDOW_def)
  have a: "runTicks volumeConfig (?pre @ [[0, 0, 0, 0]]) initialDecoder = Some ?s22"
    by (simp only: runTicks_append r21 r22 option.case)
  have b: "runTicks volumeConfig (?pre @ [[0, 0, 0, 0]] @ replicate 19 [0, 0, 0, 0]) initialDecoder
      = Some ?s41"
    by (simp only: runTicks_append r21 r22 r41 option.case)
  have c: "runTicks volumeConfig
      (?pre @ [[0, 0, 0, 0]] @ replicate 19 [0, 0, 0, 0] @ [[0, 0, 0, 0]]) initialDecoder
      = Some ?s42"
    by (simp only: runTicks_append r21 r22 r41 r42 option.case)
  show ?thesis
    using r21 a b c by (simp del: runTicks.simps replicate.simps)
qed

text \<open>
  What does hold: after \<open>checkTap\<close> an open wait is younger than the window, and an
  expired wait is resolved into a single tap on every tick on which no qualifying tap
  release is handled.
\<close>

lemma checkTap_wait_bounded:
  "waitingForDoubleTap (checkTap s) \<Longrightarrow>
   currentTime (checkTap s) - lastTapTime (checkTap s) < DOUBLE_TAP_WINDOW"
  by (auto simp: checkTap_def reportKeyCall_def Let_def split: if_splits)

lemma checkTap_expiry:
  assumes "waitingForDoubleTap s" "currentTime s - lastTapTime s \<ge> DOUBLE_TAP_WINDOW"
    and "isTouching s \<or> releaseProcessed s \<or> hasMoved s
         \<or> currentTime s - touchStartTime s \<le> 0
         \<or> currentTime s - touchStartTime s \<ge> TAP_MAX_DURATION"
  shows "reported (checkTap s) = reported s @ [ReportKey KEY_MIC_MUTE 1]
       \<and> \<not> waitingForDoubleTap (checkTap s)"
  using assms by (auto simp: checkTap_def reportKeyCall_def Let_def)

section \<open>Flip and scale\<close>

lemma checkSensor_moved:
  assumes "newFingerPos chans = Some p" "0 \<le> p" "0 \<le> oldFingerPos s" "p \<noteq> oldFingerPos s"
  shows "\<exists>s'. checkSensor cfg chans s = Some s'
     \<and> queue s' = (queue s)[0 := word_of_int
            ((if flip cfg then - (oldFingerPos s - p) else oldFingerPos s - p) * scale cfg)]
     \<and> hasMoved s' \<and> oldFingerPos s' = p"
  using assms by (auto simp: checkSensor_def Let_def)

text \<open>
  Claim C10.  When a delta between two valid positions enters the queue, slot 0 receives
  \<open>change * scale\<close> converted to \<open>signed char\<close>: the value read back is the product taken
  modulo \<open>2 ^ 8\<close> into \<open>- 128 .. 127\<close>, and \<open>checkSensor\<close> returns normally.  Every
  entry of the queue is in that range.  The witness stores \<open>- 106\<close> for the product 150.
\<close>

theorem checkSensor_wraps_delta:
  assumes "newFingerPos chans = Some p" "0 \<le> p" "0 \<le> oldFingerPos s" "p \<noteq> oldFingerPos s"
    and "length (queue s) = queueSize"
  shows "\<exists>s'. checkSensor cfg chans s = Some s'
     \<and> queue s' ! 0 = word_of_int
            ((if flip cfg then - (oldFingerPos s - p) else oldFingerPos s - p) * scale cfg)
     \<and> sint (queue s' ! 0)
         = ((if flip cfg then - (oldFingerPos s - p) else oldFingerPos s - p) * scale cfg + 128)
             mod 2 ^ 8 - 128
     \<and> - 128 \<le> sint (queue s' ! 0) \<and> sint (queue s' ! 0) \<le> 127
     \<and> (\<forall>x\<in>set (queue s'). - 128 \<le> sint x \<and> sint x \<le> 127)"
proof -
  from checkSensor_moved [OF assms(1-4), of cfg]
  obtain s' where s': "checkSensor cfg chans s = Some s'"
    and q: "queue s' = (queue s)[0 := word_of_int
            ((if flip cfg then - (oldFingerPos s - p) else oldFingerPos s - p) * scale cfg)]"
    by blast
  have ne: "0 < length (queue s)" using assms(5) by (simp add: queueSize_def)
  have q0: "queue s' ! 0 = word_of_int
            ((if flip cfg then - (oldFingerPos s - p) else oldFingerPos s - p) * scale cfg)"
    unfolding q using ne by simp
  have v: "sint (queue s' ! 0)
         = ((if flip cfg then - (oldFingerPos s - p) else oldFingerPos s - p) * scale cfg + 128)
             mod 2 ^ 8 - 128"
    unfolding q0 by (simp only: int_word_sint) simp
  show ?thesis using s' q0 v sint_schar_range by blast
qed

theorem checkSensor_wraps_delta_witness:
  "newFingerPos [10, 0, 0, 0, 0, 0] = Some 0
   \<and> map_option (\<lambda>s'. sint (queue s' ! 0))
       (checkSensor \<lparr> flip = False, scale = 30, func = DEVICE_FUNCTION_VOLUME \<rparr>
          [10, 0, 0, 0, 0, 0] (initialDecoder\<lparr> oldFingerPos := 5, isTouching := True \<rparr>))
      = Some (- 106)"
proof -
  let ?cfg = "\<lparr> flip = False, scale = 30, func = DEVICE_FUNCTION_VOLUME \<rparr>"
  let ?s = "initialDecoder\<lparr> oldFingerPos := 5, isTouching := True \<rparr>"
  have h1: "newFingerPos [10, 0, 0, 0, 0, 0] = Some 0"
    by (simp add: newFingerPos_def scanChannel_def cdiv_def wrap32_def upt_rec)
  have h2: "(0 :: int) \<le> 0" by simp
  have h3: "0 \<le> oldFingerPos ?s" by simp
  have h4: "0 \<noteq> oldFingerPos ?s" by simp
  have h5: "length (queue ?s) = queueSize" by (simp add: initialDecoder_def queueSize_def)
  from checkSensor_wraps_delta [OF h1 h2 h3 h4 h5, of ?cfg]
  obtain s' where "checkSensor ?cfg [10, 0, 0, 0, 0, 0] ?s = Some s'"
    and "sint (queue s' ! 0)
         = ((if flip ?cfg then - (oldFingerPos ?s - 0) else oldFingerPos ?s - 0) * scale ?cfg + 128)
             mod 2 ^ 8 - 128"
    by blast
  then show ?thesis using h1 by simp
qed

lemma checkQueue_reported:
  "reported (checkQueue cfg t)
    = reported t @
      (case func cfg of
         DEVICE_FUNCTION_VOLUME \<Rightarrow>
           (if sint (queue t ! 3) > 0 then [ReportKey KEY_VOLUME_UP (sint (queue t ! 3))]
            else if sint (queue t ! 3) < 0 then [ReportKey KEY_VOLUME_DOWN (- sint (queue t ! 3))]
            else [])
       | DEVICE_FUNCTION_BRIGHTNESS \<Rightarrow>
           (if sint (queue t ! 3) > 0 then [ReportKey KEY_BRIGHTNESS_UP (sint (queue t ! 3))]
            else if sint (queue t ! 3) < 0 then [ReportKey KEY_BRIGHTNESS_DOWN (- sint (queue t ! 3))]
            else [])
       | DEVICE_FUNCTION_SCROLL \<Rightarrow> [ReportScroll (sint (queue t ! 3))]
       | DEVICE_FUNCTION_OTHER \<Rightarrow> [])"
  by (simp add: checkQueue_def queueSize_def reportUpDown_def reportKeyCall_def reportScrollCall_def
      Let_def split: DeviceFunction.splits)

text \<open>
  Two runs on the same samples whose configurations differ by a factor \<open>r\<close> on the stored
  deltas stay related tick after tick: the queue entries and the slide reports of the one
  are \<open>r\<close> times those of the other.  The lemmas follow \<open>onTimer\<close>: \<open>checkSensor\<close>,
  \<open>checkTap\<close>, \<open>optimizeQueue\<close> (its three loops), \<open>checkQueue\<close>.
\<close>

lemma checkQueue_eq:
  assumes "length (queue s) = queueSize"
  shows "checkQueue cfg s
    = s\<lparr> reported := reported s @ slideCalls (func cfg) (sint (queue s ! 3)),
         queue := [0, queue s ! 0, queue s ! 1, queue s ! 2] \<rparr>"
proof -
  obtain a b c d where q: "queue s = [a, b, c, d]"
    using assms unfolding queueSize_def by (rule length4E)
  show ?thesis
    by (simp add: checkQueue_def queueSize_def q reportUpDown_def reportKeyCall_def
        reportScrollCall_def slideCalls_def Let_def upt_rec numeral_eq_Suc
        split: DeviceFunction.splits)
qed

lemma slideCalls_scaled:
  "r \<noteq> 0 \<Longrightarrow> slideCalls f (r * v) = map (scaleCall r) (slideCalls f v)"
  by (cases f)
     (auto simp: slideCalls_def KEY_VOLUME_UP_def KEY_VOLUME_DOWN_def KEY_BRIGHTNESS_UP_def
        KEY_BRIGHTNESS_DOWN_def zero_less_mult_iff mult_less_0_iff abs_if)

lemma checkTap_scaled: "checkTap (scaledDecoder r s) = scaledDecoder r (checkTap s)"
  by (simp add: checkTap_def scaledDecoder_def reportKeyCall_def Let_def
      KEY_LOCK_WORKSTATION_def KEY_MIC_MUTE_def KEY_VOLUME_UP_def KEY_VOLUME_DOWN_def
      KEY_BRIGHTNESS_UP_def KEY_BRIGHTNESS_DOWN_def DOUBLE_TAP_WINDOW_def)

lemma checkTap_queue: "queue (checkTap s) = queue s"
  by (simp add: checkTap_def reportKeyCall_def Let_def)

lemma sgn_scale1: "r \<noteq> 0 \<Longrightarrow> (r::int) * x * (sgn r * side) = \<bar>r\<bar> * (x * side)"
  by (cases "0 < r") (simp_all add: sgn_if)

lemma sgn_scale2: "r \<noteq> 0 \<Longrightarrow> (r::int) * x + \<bar>r\<bar> * c * (sgn r * side) = r * (x + c * side)"
  by (cases "0 < r") (simp_all add: sgn_if algebra_simps)

lemma min_scale: "r \<noteq> 0 \<Longrightarrow> min (\<bar>r\<bar> * corr) \<bar>(r::int) * x\<bar> = \<bar>r\<bar> * min corr \<bar>x\<bar>"
  by (simp add: abs_mult min_def)

lemma abs_scale_le: "\<bar>a\<bar> \<le> \<bar>b\<bar> \<Longrightarrow> \<bar>(r::int) * a\<bar> \<le> \<bar>r * b\<bar>"
  by (simp add: abs_mult mult_left_mono)

lemma max_scale_pos: "0 < r \<Longrightarrow> max 0 ((r::int) * a) = r * max 0 a"
  by (simp add: max_def zero_le_mult_iff)

lemma max_scale_neg: "r < 0 \<Longrightarrow> max 0 ((r::int) * a) = - r * max 0 (- a)"
  by (auto simp: max_def zero_le_mult_iff mult_le_0_iff)

lemma absorb_step:
  assumes n: "n < length q" and sg: "sint (q ! n) * side \<le> 0"
    and side: "side = 1 \<or> side = - 1" and c0: "0 \<le> corr"
  shows "absorb side n (q, corr)
           = (q[n := word_of_int (sint (q ! n) + min corr \<bar>sint (q ! n)\<bar> * side)],
              corr - min corr \<bar>sint (q ! n)\<bar>)"
    and "sint (word_of_int (sint (q ! n) + min corr \<bar>sint (q ! n)\<bar> * side) :: schar)
           = sint (q ! n) + min corr \<bar>sint (q ! n)\<bar> * side"
    and "\<bar>sint (q ! n) + min corr \<bar>sint (q ! n)\<bar> * side\<bar> \<le> \<bar>sint (q ! n)\<bar>"
    and "(sint (q ! n) + min corr \<bar>sint (q ! n)\<bar> * side) * side \<le> 0"
    and "0 \<le> corr - min corr \<bar>sint (q ! n)\<bar>"
proof -
  define x where "x = sint (q ! n)"
  define c where "c = min corr \<bar>x\<bar>"
  have xr: "- 128 \<le> x" "x \<le> 127" using sint_schar_range [of "q ! n"] unfolding x_def by simp_all
  have cb: "0 \<le> c" "c \<le> \<bar>x\<bar>" "c \<le> corr" using c0 unfolding c_def by auto
  have xs: "x * side \<le> 0" using sg unfolding x_def .
  show "absorb side n (q, corr) = (q[n := word_of_int (sint (q ! n) + min corr \<bar>sint (q ! n)\<bar> * side)],
              corr - min corr \<bar>sint (q ! n)\<bar>)"
    by (simp add: absorb_def Let_def abs_if min_def)
  have wr: "- 128 \<le> x + c * side" "x + c * side \<le> 127"
    using side xs xr cb by auto
  show "sint (word_of_int (sint (q ! n) + min corr \<bar>sint (q ! n)\<bar> * side) :: schar)
           = sint (q ! n) + min corr \<bar>sint (q ! n)\<bar> * side"
    using wr unfolding c_def x_def by (rule sint_word_of_int_schar)
  show "\<bar>sint (q ! n) + min corr \<bar>sint (q ! n)\<bar> * side\<bar> \<le> \<bar>sint (q ! n)\<bar>"
    using side xs cb unfolding c_def x_def by auto
  show "(sint (q ! n) + min corr \<bar>sint (q ! n)\<bar> * side) * side \<le> 0"
    using side xs cb unfolding c_def x_def by auto
  show "0 \<le> corr - min corr \<bar>sint (q ! n)\<bar>" by simp
qed

lemma sint_scaleEntry:
  "\<bar>r * sint x\<bar> \<le> 127 \<Longrightarrow> sint (scaleEntry r x) = r * sint x"
  unfolding scaleEntry_def by (rule sint_word_of_int_schar) simp_all

lemma scaleEntry_zero: "scaleEntry r 0 = 0"
  by (simp add: scaleEntry_def)

lemma absorb_fold_scaled:
  assumes side: "side = 1 \<or> side = - 1" and r: "r \<noteq> 0"
  shows "n \<le> length q \<Longrightarrow> \<forall>x\<in>set q. sint x * side \<le> 0 \<and> \<bar>r * sint x\<bar> \<le> 127 \<Longrightarrow> 0 \<le> corr \<Longrightarrow>
    \<exists>q' corr'. fold (absorb side) (rev [0..<n]) (q, corr) = (q', corr')
      \<and> fold (absorb (sgn r * side)) (rev [0..<n]) (map (scaleEntry r) q, \<bar>r\<bar> * corr)
          = (map (scaleEntry r) q', \<bar>r\<bar> * corr')
      \<and> length q' = length q
      \<and> (\<forall>x\<in>set q'. \<bar>r * sint x\<bar> \<le> 127)"
proof (induction n arbitrary: q corr)
  case 0
  then show ?case by simp
next
  case (Suc n)
  then have n: "n < length q" by simp
  define x where "x = sint (q ! n)"
  define c where "c = min corr \<bar>x\<bar>"
  define w :: schar where "w = word_of_int (x + c * side)"
  have qn: "q ! n \<in> set q" using n by simp
  have xs: "x * side \<le> 0" and xr: "\<bar>r * x\<bar> \<le> 127"
    using Suc.prems(2) qn unfolding x_def by auto
  note st = absorb_step [OF n xs [unfolded x_def] side Suc.prems(3)]
  have a1: "absorb side n (q, corr) = (q[n := w], corr - c)"
    using st(1) unfolding w_def c_def x_def .
  have sw: "sint w = x + c * side" using st(2) unfolding w_def c_def x_def .
  have wa: "\<bar>sint w\<bar> \<le> \<bar>x\<bar>" using st(3) unfolding sw c_def x_def .
  have ws: "sint w * side \<le> 0" using st(4) unfolding sw c_def x_def .
  have c1: "0 \<le> corr - c" using st(5) unfolding c_def x_def .
  have wr: "\<bar>r * sint w\<bar> \<le> 127"
    using abs_scale_le [OF wa, of r] xr by linarith
  let ?qB = "map (scaleEntry r) q"
  have nB: "n < length ?qB" using n by simp
  have sB: "sint (?qB ! n) = r * x"
    using n xr unfolding x_def by (simp add: sint_scaleEntry)
  have sideB: "sgn r * side = 1 \<or> sgn r * side = - 1"
    using side r by (auto simp: sgn_if)
  have xsB: "sint (?qB ! n) * (sgn r * side) \<le> 0"
    unfolding sB sgn_scale1 [OF r] using xs by (simp add: mult_nonneg_nonpos)
  have c0B: "0 \<le> \<bar>r\<bar> * corr" using Suc.prems(3) by simp
  have cB: "min (\<bar>r\<bar> * corr) \<bar>r * x\<bar> = \<bar>r\<bar> * c"
    unfolding c_def using r by (rule min_scale)
  have a2: "absorb (sgn r * side) n (?qB, \<bar>r\<bar> * corr) = (?qB[n := scaleEntry r w], \<bar>r\<bar> * (corr - c))"
  proof -
    have "r * x + \<bar>r\<bar> * c * (sgn r * side) = r * (x + c * side)"
      using r by (rule sgn_scale2)
    then have "word_of_int (sint (?qB ! n) + min (\<bar>r\<bar> * corr) \<bar>sint (?qB ! n)\<bar> * (sgn r * side))
        = scaleEntry r w"
      unfolding sB cB scaleEntry_def sw by simp
    then show ?thesis
      using absorb_step(1) [OF nB xsB sideB c0B] unfolding sB cB
      by (simp add: right_diff_distrib)
  qed
  have inv: "\<forall>y\<in>set (q[n := w]). sint y * side \<le> 0 \<and> \<bar>r * sint y\<bar> \<le> 127"
  proof
    fix y assume "y \<in> set (q[n := w])"
    then have "y = w \<or> y \<in> set q" using set_update_subset_insert [of q n w] by auto
    then show "sint y * side \<le> 0 \<and> \<bar>r * sint y\<bar> \<le> 127"
      using ws wr Suc.prems(2) by auto
  qed
  from Suc.IH [of "q[n := w]" "corr - c"] n inv c1
  obtain q' corr' where f: "fold (absorb side) (rev [0..<n]) (q[n := w], corr - c) = (q', corr')"
    and fB: "fold (absorb (sgn r * side)) (rev [0..<n]) (map (scaleEntry r) (q[n := w]), \<bar>r\<bar> * (corr - c))
          = (map (scaleEntry r) q', \<bar>r\<bar> * corr')"
    and l: "length q' = length q"
    and rg: "\<forall>x\<in>set q'. \<bar>r * sint x\<bar> \<le> 127"
    by auto
  have s1: "fold (absorb side) (rev [0..<Suc n]) (q, corr) = (q', corr')"
    using a1 f by simp
  have s2: "fold (absorb (sgn r * side)) (rev [0..<Suc n]) (?qB, \<bar>r\<bar> * corr)
      = (map (scaleEntry r) q', \<bar>r\<bar> * corr')"
    using a2 fB by (simp add: map_update)
  show ?case using s1 s2 l rg by blast
qed

lemma sum_list_scale: "(\<Sum>x\<leftarrow>xs. (c::int) * f x) = c * (\<Sum>x\<leftarrow>xs. f x)"
  by (induction xs) (simp_all add: distrib_left)

lemma optimizeQueue_unfold:
  assumes len: "length (queue s) = queueSize"
    and ch: "(if (\<Sum>x\<leftarrow>queue s. max 0 (sint x)) > (\<Sum>x\<leftarrow>queue s. max 0 (- sint x))
              then ((\<Sum>x\<leftarrow>queue s. max 0 (- sint x)), - 1)
              else ((\<Sum>x\<leftarrow>queue s. max 0 (sint x)), 1)) = (corr, side)"
  shows "optimizeQueue s
    = s\<lparr> queue := fst (fold (absorb side) (rev [0..<queueSize])
                         (map (\<lambda>x. if sint x * side > 0 then 0 else x) (queue s), corr)) \<rparr>"
proof -
  have fc: "fold (countSides (queue s)) [0..<queueSize] (0, 0)
      = ((\<Sum>x\<leftarrow>queue s. max 0 (sint x)), (\<Sum>x\<leftarrow>queue s. max 0 (- sint x)))"
    using countSides_fold [of queueSize "queue s" 0 0] len by simp
  have q1: "fold (clearSide side) [0..<queueSize] (queue s)
      = map (\<lambda>x. if sint x * side > 0 then 0 else x) (queue s)"
    using clearSide_fold_all [of side "queue s"] len by simp
  show ?thesis
    unfolding optimizeQueue_def fc using ch q1
    by (auto simp: Let_def case_prod_beta split: if_splits)
qed

lemma all_zero_nonpos:
  "\<forall>x\<in>set q. sint x \<le> 0 \<Longrightarrow> sum_list (map sint q) = 0 \<Longrightarrow> \<forall>x\<in>set q. x = (0 :: schar)"
proof (induction q)
  case Nil
  then show ?case by simp
next
  case (Cons a q)
  have "sum_list (map sint q) \<le> 0"
    using Cons.prems(1) by (intro sum_list_nonpos) auto
  moreover have "sint a \<le> 0" using Cons.prems(1) by simp
  ultimately have "sint a = 0" "sum_list (map sint q) = 0" using Cons.prems(2) by simp_all
  then show ?case using Cons by (simp add: signed_eq_0_iff)
qed

lemma optimizeQueue_tie:
  assumes len: "length (queue s) = queueSize"
    and tie: "(\<Sum>x\<leftarrow>queue s. max 0 (sint x)) = (\<Sum>x\<leftarrow>queue s. max 0 (- sint x))"
  shows "optimizeQueue s = s\<lparr> queue := replicate queueSize 0 \<rparr>"
proof -
  define p where "p = (\<Sum>x\<leftarrow>queue s. max 0 (sint x))"
  have fc: "fold (countSides (queue s)) [0..<queueSize] (0, 0) = (p, p)"
    using countSides_fold [of queueSize "queue s" 0 0] len tie by (simp add: p_def)
  have p0: "0 \<le> p" unfolding p_def by (rule sum_list_nonneg) auto
  have "sum_list (map sint (queue (optimizeQueue s))) = - p + 1 * p
       \<and> (\<forall>x\<in>set (queue (optimizeQueue s)). sint x * 1 \<le> 0)
       \<and> length (queue (optimizeQueue s)) = queueSize"
  proof (rule optimizeQueue_sides [OF len _ fc, where corr = p])
    show "(if p > p then (p, - 1) else (p, 1)) = (p, 1 :: int)" by simp
    show "(\<Sum>x\<leftarrow>queue s. sint (if sint x * 1 > 0 then 0 else x)) = - p"
      unfolding cleared_positives p_def tie by simp
    show "p \<le> (\<Sum>x\<leftarrow>queue s. \<bar>sint (if sint x * 1 > 0 then 0 else x)\<bar>)"
      unfolding cleared_positives p_def tie by simp
  qed (use p0 in simp_all)
  then have z: "\<forall>x\<in>set (queue (optimizeQueue s)). x = 0"
    and l: "length (queue (optimizeQueue s)) = queueSize"
    using all_zero_nonpos [of "queue (optimizeQueue s)"] by simp_all
  have q: "queue (optimizeQueue s) = replicate queueSize 0"
    using replicate_length_same [OF z] l by simp
  have "optimizeQueue s = s\<lparr> queue := queue (optimizeQueue s) \<rparr>"
    by (simp add: optimizeQueue_def Let_def case_prod_beta)
  then show ?thesis unfolding q .
qed

lemma sums_scaled:
  assumes "\<forall>x\<in>set q. \<bar>r * sint x\<bar> \<le> 127"
  shows "(\<Sum>x\<leftarrow>map (scaleEntry r) q. max 0 (sint x)) = (\<Sum>x\<leftarrow>q. max 0 (r * sint x))"
    and "(\<Sum>x\<leftarrow>map (scaleEntry r) q. max 0 (- sint x)) = (\<Sum>x\<leftarrow>q. max 0 (- (r * sint x)))"
  using assms by (induction q) (simp_all add: sint_scaleEntry)

lemma sums_scaled_pos:
  assumes "\<forall>x\<in>set q. \<bar>r * sint x\<bar> \<le> 127" "0 < r"
  shows "(\<Sum>x\<leftarrow>map (scaleEntry r) q. max 0 (sint x)) = r * (\<Sum>x\<leftarrow>q. max 0 (sint x))"
    and "(\<Sum>x\<leftarrow>map (scaleEntry r) q. max 0 (- sint x)) = r * (\<Sum>x\<leftarrow>q. max 0 (- sint x))"
proof -
  have a: "\<And>x. max 0 (r * sint x) = r * max 0 (sint x)"
    using assms(2) by (rule max_scale_pos)
  have b: "\<And>x::schar. max 0 (- (r * sint x)) = r * max 0 (- sint x)"
    using max_scale_pos [OF assms(2), of "- sint x" for x :: schar] by simp
  show "(\<Sum>x\<leftarrow>map (scaleEntry r) q. max 0 (sint x)) = r * (\<Sum>x\<leftarrow>q. max 0 (sint x))"
    unfolding sums_scaled(1) [OF assms(1)] a by (rule sum_list_scale)
  show "(\<Sum>x\<leftarrow>map (scaleEntry r) q. max 0 (- sint x)) = r * (\<Sum>x\<leftarrow>q. max 0 (- sint x))"
    unfolding sums_scaled(2) [OF assms(1)] b by (rule sum_list_scale)
qed

lemma sums_scaled_neg:
  assumes "\<forall>x\<in>set q. \<bar>r * sint x\<bar> \<le> 127" "r < 0"
  shows "(\<Sum>x\<leftarrow>map (scaleEntry r) q. max 0 (sint x)) = - r * (\<Sum>x\<leftarrow>q. max 0 (- sint x))"
    and "(\<Sum>x\<leftarrow>map (scaleEntry r) q. max 0 (- sint x)) = - r * (\<Sum>x\<leftarrow>q. max 0 (sint x))"
proof -
  have a: "\<And>x. max 0 (r * sint x) = - r * max 0 (- sint x)"
    using assms(2) by (rule max_scale_neg)
  have b: "\<And>x::schar. max 0 (- (r * sint x)) = - r * max 0 (sint x)"
    using max_scale_neg [OF assms(2), of "- sint x" for x :: schar] by simp
  show "(\<Sum>x\<leftarrow>map (scaleEntry r) q. max 0 (sint x)) = - r * (\<Sum>x\<leftarrow>q. max 0 (- sint x))"
    unfolding sums_scaled(1) [OF assms(1)] a by (rule sum_list_scale)
  show "(\<Sum>x\<leftarrow>map (scaleEntry r) q. max 0 (- sint x)) = - r * (\<Sum>x\<leftarrow>q. max 0 (sint x))"
    unfolding sums_scaled(2) [OF assms(1)] b by (rule sum_list_scale)
qed

lemma optimizeQueue_scaled:
  assumes len: "length (queue a) = queueSize" and r: "r \<noteq> 0"
    and rg: "\<forall>x\<in>set (queue a). \<bar>r * sint x\<bar> \<le> 127"
  shows "optimizeQueue (scaledDecoder r a) = scaledDecoder r (optimizeQueue a)
       \<and> (\<forall>x\<in>set (queue (optimizeQueue a)). \<bar>r * sint x\<bar> \<le> 127)
       \<and> length (queue (optimizeQueue a)) = queueSize"
proof -
  define P where "P = (\<Sum>x\<leftarrow>queue a. max 0 (sint x))"
  define N where "N = (\<Sum>x\<leftarrow>queue a. max 0 (- sint x))"
  let ?b = "scaledDecoder r a"
  have qB: "queue ?b = map (scaleEntry r) (queue a)" by (simp add: scaledDecoder_def)
  have lenB: "length (queue ?b) = queueSize" using len by (simp add: qB)
  have P0: "0 \<le> P" unfolding P_def by (rule sum_list_nonneg) auto
  have N0: "0 \<le> N" unfolding N_def by (rule sum_list_nonneg) auto
  show ?thesis
  proof (cases "r < 0 \<and> P = N")
    case True
    then have rn: "r < 0" and tie: "P = N" by simp_all
    have A: "optimizeQueue a = a\<lparr> queue := replicate queueSize 0 \<rparr>"
      using len tie unfolding P_def N_def by (rule optimizeQueue_tie)
    have "(\<Sum>x\<leftarrow>queue ?b. max 0 (sint x)) = (\<Sum>x\<leftarrow>queue ?b. max 0 (- sint x))"
      unfolding qB sums_scaled_neg [OF rg rn] using tie unfolding P_def N_def by simp
    then have B: "optimizeQueue ?b = ?b\<lparr> queue := replicate queueSize 0 \<rparr>"
      using lenB by (intro optimizeQueue_tie)
    have "optimizeQueue ?b = scaledDecoder r (optimizeQueue a)"
      unfolding A B by (simp add: scaledDecoder_def scaleEntry_zero)
    moreover have "\<forall>x\<in>set (queue (optimizeQueue a)). \<bar>r * sint x\<bar> \<le> 127"
      unfolding A by simp
    moreover have "length (queue (optimizeQueue a)) = queueSize" unfolding A by simp
    ultimately show ?thesis by blast
  next
    case False
    define corr where "corr = (if P > N then N else P)"
    define side :: int where "side = (if P > N then - 1 else 1)"
    have side: "side = 1 \<or> side = - 1" unfolding side_def by simp
    have c0: "0 \<le> corr" unfolding corr_def using P0 N0 by simp
    have ch: "(if (\<Sum>x\<leftarrow>queue a. max 0 (sint x)) > (\<Sum>x\<leftarrow>queue a. max 0 (- sint x))
              then ((\<Sum>x\<leftarrow>queue a. max 0 (- sint x)), - 1)
              else ((\<Sum>x\<leftarrow>queue a. max 0 (sint x)), 1)) = (corr, side)"
      unfolding corr_def side_def P_def N_def by simp
    have chB: "(if (\<Sum>x\<leftarrow>queue ?b. max 0 (sint x)) > (\<Sum>x\<leftarrow>queue ?b. max 0 (- sint x))
              then ((\<Sum>x\<leftarrow>queue ?b. max 0 (- sint x)), - 1)
              else ((\<Sum>x\<leftarrow>queue ?b. max 0 (sint x)), 1)) = (\<bar>r\<bar> * corr, sgn r * side)"
    proof (cases "0 < r")
      case True
      show ?thesis
        unfolding qB sums_scaled_pos [OF rg True] P_def [symmetric] N_def [symmetric]
        using True by (simp add: corr_def side_def)
    next
      case neg: False
      then have rn: "r < 0" using r by simp
      then have ne: "P \<noteq> N" using False by simp
      show ?thesis
        unfolding qB sums_scaled_neg [OF rg rn] P_def [symmetric] N_def [symmetric]
        using rn ne by (auto simp: corr_def side_def mult_less_cancel_left)
    qed
    let ?clear = "\<lambda>x :: schar. if sint x * side > 0 then 0 else x"
    let ?clearB = "\<lambda>x :: schar. if sint x * (sgn r * side) > 0 then 0 else x"
    let ?q1 = "map ?clear (queue a)"
    have A: "optimizeQueue a
        = a\<lparr> queue := fst (fold (absorb side) (rev [0..<queueSize]) (?q1, corr)) \<rparr>"
      using len ch by (rule optimizeQueue_unfold)
    have B: "optimizeQueue ?b
        = ?b\<lparr> queue := fst (fold (absorb (sgn r * side)) (rev [0..<queueSize])
                               (map ?clearB (queue ?b), \<bar>r\<bar> * corr)) \<rparr>"
      using lenB chB by (rule optimizeQueue_unfold)
    have cl: "map ?clearB (queue ?b) = map (scaleEntry r) ?q1"
    proof -
      have "\<And>x. x \<in> set (queue a) \<Longrightarrow> ?clearB (scaleEntry r x) = scaleEntry r (?clear x)"
      proof -
        fix x assume "x \<in> set (queue a)"
        then have s: "sint (scaleEntry r x) = r * sint x" using rg by (simp add: sint_scaleEntry)
        have "(sint (scaleEntry r x) * (sgn r * side) > 0) = (sint x * side > 0)"
          unfolding s sgn_scale1 [OF r] using r by (simp add: zero_less_mult_iff)
        then show "?clearB (scaleEntry r x) = scaleEntry r (?clear x)"
          by (simp add: scaleEntry_zero)
      qed
      then show ?thesis unfolding qB by simp
    qed
    have inv: "\<forall>x\<in>set ?q1. sint x * side \<le> 0 \<and> \<bar>r * sint x\<bar> \<le> 127"
      using rg by auto
    have l1: "queueSize \<le> length ?q1" using len by simp
    from absorb_fold_scaled [OF side r l1 inv c0]
    obtain q' corr' where f: "fold (absorb side) (rev [0..<queueSize]) (?q1, corr) = (q', corr')"
      and fB: "fold (absorb (sgn r * side)) (rev [0..<queueSize]) (map (scaleEntry r) ?q1, \<bar>r\<bar> * corr)
          = (map (scaleEntry r) q', \<bar>r\<bar> * corr')"
      and l: "length q' = length ?q1"
      and rg': "\<forall>x\<in>set q'. \<bar>r * sint x\<bar> \<le> 127"
      by blast
    have A': "optimizeQueue a = a\<lparr> queue := q' \<rparr>" unfolding A f by simp
    have B': "optimizeQueue ?b = ?b\<lparr> queue := map (scaleEntry r) q' \<rparr>" unfolding B cl fB by simp
    have "optimizeQueue ?b = scaledDecoder r (optimizeQueue a)"
      unfolding A' B' by (simp add: scaledDecoder_def)
    moreover have "\<forall>x\<in>set (queue (optimizeQueue a)). \<bar>r * sint x\<bar> \<le> 127"
      unfolding A' using rg' by simp
    moreover have "length (queue (optimizeQueue a)) = queueSize"
      unfolding A' using l len by simp
    ultimately show ?thesis by blast
  qed
qed

lemma change_factor: "(if flip cfg then - d else d) * scale cfg = factor cfg * d"
  by (simp add: factor_def)

lemma abs_factor: "\<bar>factor cfg * d\<bar> = \<bar>d * scale cfg\<bar>"
  by (simp add: factor_def abs_mult mult.commute)

lemma checkSensor_moved_eq:
  assumes "newFingerPos chans = Some p" "0 \<le> p" "0 \<le> oldFingerPos s" "p \<noteq> oldFingerPos s"
    and w: "w = word_of_int ((if flip cfg then - (oldFingerPos s - p) else oldFingerPos s - p)
                * scale cfg)"
  shows "checkSensor cfg chans s
    = Some ((if \<not> isTouching s
             then s\<lparr> isTouching := True, touchStartTime := currentTime s,
                     hasMoved := False, releaseProcessed := False \<rparr>
             else s)\<lparr> hasMoved := True, queue := (queue s)[0 := w], oldFingerPos := p \<rparr>)"
  using assms(1-4) unfolding w by (auto simp: checkSensor_def Let_def)

lemma checkSensor_scaled:
  assumes fac: "factor cfgB = r * factor cfgA" and r: "r \<noteq> 0"
    and len: "length (queue a) = queueSize"
    and rg: "\<forall>x\<in>set (queue a). \<bar>r * sint x\<bar> \<le> 127"
    and pos: "newFingerPos chans = Some p"
    and fit: "0 \<le> p \<and> 0 \<le> oldFingerPos a \<and> p \<noteq> oldFingerPos a
              \<longrightarrow> \<bar>(oldFingerPos a - p) * scale cfgB\<bar> \<le> 127"
  shows "\<exists>a1. checkSensor cfgA chans a = Some a1
     \<and> checkSensor cfgB chans (scaledDecoder r a) = Some (scaledDecoder r a1)
     \<and> length (queue a1) = queueSize
     \<and> (\<forall>x\<in>set (queue a1). \<bar>r * sint x\<bar> \<le> 127)
     \<and> oldFingerPos a1 = p"
proof (cases "0 \<le> p \<and> 0 \<le> oldFingerPos a \<and> p \<noteq> oldFingerPos a")
  case False
  then show ?thesis
    using pos len rg by (auto simp: checkSensor_def scaledDecoder_def Let_def)
next
  case True
  then have t: "0 \<le> p" "0 \<le> oldFingerPos a" "p \<noteq> oldFingerPos a" by simp_all
  define d where "d = oldFingerPos a - p"
  define wA :: schar where "wA = word_of_int (factor cfgA * d)"
  define wB :: schar where "wB = word_of_int (factor cfgB * d)"
  have fB: "\<bar>factor cfgB * d\<bar> \<le> 127"
    using fit True unfolding abs_factor d_def by simp
  have r1: "1 \<le> \<bar>r\<bar>" using r by simp
  have "\<bar>factor cfgA * d\<bar> \<le> \<bar>r\<bar> * \<bar>factor cfgA * d\<bar>"
    using r1 by (simp add: mult_le_cancel_right1)
  also have "\<dots> = \<bar>factor cfgB * d\<bar>" unfolding fac by (simp add: abs_mult)
  finally have fA: "\<bar>factor cfgA * d\<bar> \<le> 127" using fB by simp
  have swA: "sint wA = factor cfgA * d"
    unfolding wA_def using fA by (intro sint_word_of_int_schar) simp_all
  have sc: "scaleEntry r wA = wB"
    unfolding scaleEntry_def swA wB_def fac by (simp only: mult.assoc)
  have rgw: "\<bar>r * sint wA\<bar> \<le> 127"
    unfolding swA using fB unfolding fac by (simp add: mult.assoc)
  have rg': "\<forall>x\<in>set ((queue a)[0 := wA]). \<bar>r * sint x\<bar> \<le> 127"
  proof
    fix x assume "x \<in> set ((queue a)[0 := wA])"
    then have "x = wA \<or> x \<in> set (queue a)"
      using set_update_subset_insert [of "queue a" 0 wA] by auto
    then show "\<bar>r * sint x\<bar> \<le> 127" using rgw rg by auto
  qed
  have eA: "wA = word_of_int ((if flip cfgA then - (oldFingerPos a - p) else oldFingerPos a - p)
                * scale cfgA)"
    unfolding wA_def d_def change_factor ..
  have eB: "wB = word_of_int ((if flip cfgB then - (oldFingerPos (scaledDecoder r a) - p)
                else oldFingerPos (scaledDecoder r a) - p) * scale cfgB)"
    unfolding wB_def d_def change_factor by (simp add: scaledDecoder_def)
  let ?t = "\<lambda>s. (if \<not> isTouching s
             then s\<lparr> isTouching := True, touchStartTime := currentTime s,
                     hasMoved := False, releaseProcessed := False \<rparr>
             else s)"
  let ?a1 = "(?t a)\<lparr> hasMoved := True, queue := (queue a)[0 := wA], oldFingerPos := p \<rparr>"
  have a1: "checkSensor cfgA chans a = Some ?a1"
    using pos t eA by (rule checkSensor_moved_eq)
  have tB: "0 \<le> oldFingerPos (scaledDecoder r a)" "p \<noteq> oldFingerPos (scaledDecoder r a)"
    using t by (simp_all add: scaledDecoder_def)
  have "checkSensor cfgB chans (scaledDecoder r a)
      = Some ((?t (scaledDecoder r a))\<lparr> hasMoved := True,
                queue := (queue (scaledDecoder r a))[0 := wB], oldFingerPos := p \<rparr>)"
    using pos t(1) tB eB by (rule checkSensor_moved_eq)
  also have "(?t (scaledDecoder r a))\<lparr> hasMoved := True,
                queue := (queue (scaledDecoder r a))[0 := wB], oldFingerPos := p \<rparr>
      = scaledDecoder r ?a1"
    unfolding sc [symmetric] by (simp add: scaledDecoder_def map_update)
  finally have b1: "checkSensor cfgB chans (scaledDecoder r a) = Some (scaledDecoder r ?a1)" .
  have "length (queue ?a1) = queueSize" using len by simp
  moreover have "\<forall>x\<in>set (queue ?a1). \<bar>r * sint x\<bar> \<le> 127" using rg' by simp
  moreover have "oldFingerPos ?a1 = p" by simp
  ultimately show ?thesis using a1 b1 by blast
qed

lemma checkQueue_scaled:
  assumes fn: "func cfgB = func cfgA" and r: "r \<noteq> 0"
    and len: "length (queue a) = queueSize"
    and rg: "\<forall>x\<in>set (queue a). \<bar>r * sint x\<bar> \<le> 127"
  shows "checkQueue cfgB (scaledDecoder r a) = scaledDecoder r (checkQueue cfgA a)
     \<and> length (queue (checkQueue cfgA a)) = queueSize
     \<and> (\<forall>x\<in>set (queue (checkQueue cfgA a)). \<bar>r * sint x\<bar> \<le> 127)
     \<and> oldFingerPos (checkQueue cfgA a) = oldFingerPos a"
proof -
  obtain q0 q1 q2 q3 where q: "queue a = [q0, q1, q2, q3]"
    using len unfolding queueSize_def by (rule length4E)
  let ?b = "scaledDecoder r a"
  have qB: "queue ?b = [scaleEntry r q0, scaleEntry r q1, scaleEntry r q2, scaleEntry r q3]"
    by (simp add: scaledDecoder_def q)
  have lenB: "length (queue ?b) = queueSize" by (simp add: qB queueSize_def)
  have s3: "sint (scaleEntry r q3) = r * sint q3"
    using rg by (simp add: q sint_scaleEntry)
  have A: "checkQueue cfgA a
    = a\<lparr> reported := reported a @ slideCalls (func cfgA) (sint q3), queue := [0, q0, q1, q2] \<rparr>"
    using checkQueue_eq [OF len, of cfgA] by (simp add: q)
  have B: "checkQueue cfgB ?b
    = ?b\<lparr> reported := reported ?b @ slideCalls (func cfgA) (r * sint q3),
           queue := [0, scaleEntry r q0, scaleEntry r q1, scaleEntry r q2] \<rparr>"
    using checkQueue_eq [OF lenB, of cfgB] by (simp add: qB s3 fn)
  have "checkQueue cfgB ?b = scaledDecoder r (checkQueue cfgA a)"
    unfolding A B slideCalls_scaled [OF r]
    by (simp add: scaledDecoder_def scaleEntry_zero)
  moreover have "length (queue (checkQueue cfgA a)) = queueSize"
    unfolding A by (simp add: queueSize_def)
  moreover have "\<forall>x\<in>set (queue (checkQueue cfgA a)). \<bar>r * sint x\<bar> \<le> 127"
    unfolding A using rg by (simp add: q)
  moreover have "oldFingerPos (checkQueue cfgA a) = oldFingerPos a" unfolding A by simp
  ultimately show ?thesis by blast
qed

lemma newFingerPos_Some: "chans \<noteq> [] \<Longrightarrow> \<exists>p. newFingerPos chans = Some p"
  by (simp add: newFingerPos_def Let_def case_prod_beta)

lemma onTimer_scaled:
  assumes fn: "func cfgB = func cfgA" and fac: "factor cfgB = r * factor cfgA" and r: "r \<noteq> 0"
    and len: "length (queue a) = queueSize"
    and rg: "\<forall>x\<in>set (queue a). \<bar>r * sint x\<bar> \<le> 127"
    and pos: "newFingerPos chans = Some p"
    and fit: "0 \<le> p \<and> 0 \<le> oldFingerPos a \<and> p \<noteq> oldFingerPos a
              \<longrightarrow> \<bar>(oldFingerPos a - p) * scale cfgB\<bar> \<le> 127"
  shows "\<exists>a'. onTimer cfgA chans a = Some a'
     \<and> onTimer cfgB chans (scaledDecoder r a) = Some (scaledDecoder r a')
     \<and> length (queue a') = queueSize
     \<and> (\<forall>x\<in>set (queue a'). \<bar>r * sint x\<bar> \<le> 127)
     \<and> oldFingerPos a' = p"
proof -
  let ?a0 = "a\<lparr> currentTime := currentTime a + 1 \<rparr>"
  have t0: "(scaledDecoder r a)\<lparr> currentTime := currentTime (scaledDecoder r a) + 1 \<rparr>
      = scaledDecoder r ?a0"
    by (simp add: scaledDecoder_def)
  have len0: "length (queue ?a0) = queueSize" using len by simp
  have rg0: "\<forall>x\<in>set (queue ?a0). \<bar>r * sint x\<bar> \<le> 127" using rg by simp
  have fit0: "0 \<le> p \<and> 0 \<le> oldFingerPos ?a0 \<and> p \<noteq> oldFingerPos ?a0
              \<longrightarrow> \<bar>(oldFingerPos ?a0 - p) * scale cfgB\<bar> \<le> 127"
    using fit by simp
  from checkSensor_scaled [OF fac r len0 rg0 pos fit0]
  obtain a1 where a1: "checkSensor cfgA chans ?a0 = Some a1"
    and b1: "checkSensor cfgB chans (scaledDecoder r ?a0) = Some (scaledDecoder r a1)"
    and len1: "length (queue a1) = queueSize"
    and rg1: "\<forall>x\<in>set (queue a1). \<bar>r * sint x\<bar> \<le> 127"
    and o1: "oldFingerPos a1 = p"
    by blast
  let ?a2 = "checkTap a1"
  have len2: "length (queue ?a2) = queueSize" using len1 by (simp add: checkTap_queue)
  have rg2: "\<forall>x\<in>set (queue ?a2). \<bar>r * sint x\<bar> \<le> 127" using rg1 by (simp add: checkTap_queue)
  have o2: "oldFingerPos ?a2 = p"
    using o1 by (simp add: checkTap_def reportKeyCall_def Let_def)
  let ?a3 = "optimizeQueue ?a2"
  from optimizeQueue_scaled [OF len2 r rg2]
  have c3: "optimizeQueue (scaledDecoder r ?a2) = scaledDecoder r ?a3"
    and rg3: "\<forall>x\<in>set (queue ?a3). \<bar>r * sint x\<bar> \<le> 127"
    and len3: "length (queue ?a3) = queueSize"
    by blast+
  have o3: "oldFingerPos ?a3 = p"
    using o2 by (simp add: optimizeQueue_def Let_def case_prod_beta)
  let ?a4 = "checkQueue cfgA ?a3"
  from checkQueue_scaled [OF fn r len3 rg3]
  have c4: "checkQueue cfgB (scaledDecoder r ?a3) = scaledDecoder r ?a4"
    and len4: "length (queue ?a4) = queueSize"
    and rg4: "\<forall>x\<in>set (queue ?a4). \<bar>r * sint x\<bar> \<le> 127"
    and o4: "oldFingerPos ?a4 = oldFingerPos ?a3"
    by blast+
  have A: "onTimer cfgA chans a = Some ?a4"
    by (simp add: onTimer_def a1)
  have B: "onTimer cfgB chans (scaledDecoder r a) = Some (scaledDecoder r ?a4)"
    unfolding onTimer_def t0 b1 by (simp add: checkTap_scaled c3 c4)
  show ?thesis using A B len4 rg4 o4 o3 by auto
qed

lemma runTicks_scaled:
  assumes fn: "func cfgB = func cfgA" and fac: "factor cfgB = r * factor cfgA" and r: "r \<noteq> 0"
  shows "length (queue a) = queueSize \<Longrightarrow> \<forall>x\<in>set (queue a). \<bar>r * sint x\<bar> \<le> 127 \<Longrightarrow>
    [] \<notin> set samples \<Longrightarrow> deltasFit (scale cfgB) samples (oldFingerPos a) \<Longrightarrow>
    \<exists>a'. runTicks cfgA samples a = Some a'
       \<and> runTicks cfgB samples (scaledDecoder r a) = Some (scaledDecoder r a')"
proof (induction samples arbitrary: a)
  case Nil
  then show ?case by simp
next
  case (Cons chans rest)
  then have "chans \<noteq> []" by auto
  then obtain p where pos: "newFingerPos chans = Some p" using newFingerPos_Some by blast
  have fit: "0 \<le> p \<and> 0 \<le> oldFingerPos a \<and> p \<noteq> oldFingerPos a
              \<longrightarrow> \<bar>(oldFingerPos a - p) * scale cfgB\<bar> \<le> 127"
    and rest: "deltasFit (scale cfgB) rest p"
    using Cons.prems(4) pos by (auto split: if_splits)
  from onTimer_scaled [OF fn fac r Cons.prems(1,2) pos fit]
  obtain a' where A: "onTimer cfgA chans a = Some a'"
    and B: "onTimer cfgB chans (scaledDecoder r a) = Some (scaledDecoder r a')"
    and len': "length (queue a') = queueSize"
    and rg': "\<forall>x\<in>set (queue a'). \<bar>r * sint x\<bar> \<le> 127"
    and o': "oldFingerPos a' = p"
    by blast
  have "[] \<notin> set rest" using Cons.prems(3) by simp
  from Cons.IH [OF len' rg' this] rest o'
  obtain a'' where "runTicks cfgA rest a' = Some a''"
    "runTicks cfgB rest (scaledDecoder r a') = Some (scaledDecoder r a'')"
    by auto
  then show ?case using A B by simp
qed

lemma scaledDecoder_initial: "scaledDecoder r initialDecoder = initialDecoder"
  by (simp add: scaledDecoder_def initialDecoder_def scaleEntry_zero)

lemma runs_scaled_from_initial:
  assumes fn: "func cfgB = func cfgA" and fac: "factor cfgB = r * factor cfgA" and r: "r \<noteq> 0"
    and ne: "[] \<notin> set samples"
    and fit: "deltasFit (scale cfgB) samples (oldFingerPos initialDecoder)"
  shows "\<exists>a b. runTicks cfgA samples initialDecoder = Some a
       \<and> runTicks cfgB samples initialDecoder = Some b
       \<and> reported b = map (scaleCall r) (reported a)"
proof -
  have len: "length (queue initialDecoder) = queueSize"
    by (simp add: initialDecoder_def queueSize_def)
  have rg: "\<forall>x\<in>set (queue initialDecoder). \<bar>r * sint x\<bar> \<le> 127"
    by (simp add: initialDecoder_def)
  from runTicks_scaled [OF fn fac r len rg ne fit]
  obtain a' where "runTicks cfgA samples initialDecoder = Some a'"
    "runTicks cfgB samples (scaledDecoder r initialDecoder) = Some (scaledDecoder r a')"
    by blast
  then show ?thesis
    unfolding scaledDecoder_initial by (auto simp: scaledDecoder_def)
qed

lemma absorb_zero:
  "n \<le> length q \<Longrightarrow> fold (absorb side) (rev [0..<n]) (q, 0) = (q, 0)"
proof (induction n)
  case 0
  then show ?case by simp
next
  case (Suc n)
  have "absorb side n (q, 0) = (q, 0)"
    by (simp add: absorb_def Let_def)
  then show ?case using Suc by simp
qed

lemma neg_parts_zero:
  "\<forall>x\<in>set q. 0 \<le> sint (x :: schar) \<Longrightarrow> (\<Sum>x\<leftarrow>q. max 0 (- sint x)) = 0"
  by (induction q) simp_all

lemma optimizeQueue_nonneg:
  assumes len: "length (queue s) = queueSize" and nn: "\<forall>x\<in>set (queue s). 0 \<le> sint x"
  shows "optimizeQueue s = s"
proof -
  define P where "P = (\<Sum>x\<leftarrow>queue s. max 0 (sint x))"
  have N: "(\<Sum>x\<leftarrow>queue s. max 0 (- sint x)) = 0"
    using nn by (rule neg_parts_zero)
  have P0: "0 \<le> P" unfolding P_def by (rule sum_list_nonneg) auto
  define side :: int where "side = (if P > 0 then - 1 else 1)"
  have ch: "(if (\<Sum>x\<leftarrow>queue s. max 0 (sint x)) > (\<Sum>x\<leftarrow>queue s. max 0 (- sint x))
              then ((\<Sum>x\<leftarrow>queue s. max 0 (- sint x)), - 1)
              else ((\<Sum>x\<leftarrow>queue s. max 0 (sint x)), 1)) = (0, side)"
    unfolding N P_def [symmetric] side_def using P0 by auto
  have keep: "map (\<lambda>x. if sint x * side > 0 then 0 else x) (queue s) = queue s"
  proof (rule map_idI)
    fix x assume x: "x \<in> set (queue s)"
    show "(if sint x * side > 0 then 0 else x) = x"
    proof (cases "P > 0")
      case True
      have "0 \<le> sint x" using nn x by blast
      then show ?thesis using True by (simp add: side_def)
    next
      case False
      then have "P = 0" using P0 by simp
      then have "\<forall>y\<in>set (queue s). max 0 (sint y) = 0"
        unfolding P_def by (subst (asm) sum_list_nonneg_eq_0_iff) auto
      then have "sint x \<le> 0" using x by fastforce
      then show ?thesis using False by (simp add: side_def)
    qed
  qed
  show ?thesis
    unfolding optimizeQueue_unfold [OF len ch] keep
    using absorb_zero [of queueSize "queue s" side] len by simp
qed

lemma pos_slide:
  "newFingerPos [0, 0, 0, 10, 0, 0] = Some 3"
  "newFingerPos [0, 0, 10, 0, 0, 0] = Some 2"
  "newFingerPos [0, 10, 0, 0, 0, 0] = Some 1"
  by (simp_all add: newFingerPos_def scanChannel_def cdiv_def wrap32_def upt_rec)

lemma slide_run:
  "runTicks \<lparr> flip = False, scale = 1, func = DEVICE_FUNCTION_VOLUME \<rparr>
     [[0, 0, 0, 10, 0, 0], [0, 0, 10, 0, 0, 0], [0, 10, 0, 0, 0, 0],
      [0, 10, 0, 0, 0, 0], [0, 10, 0, 0, 0, 0], [0, 10, 0, 0, 0, 0]] initialDecoder
   = Some \<lparr> oldFingerPos = 1, queue = [0, 0, 0, 0], touchStartTime = 1, lastTapTime = 0,
       currentTime = 6, hasMoved = True, isTouching = True, waitingForDoubleTap = False,
       releaseProcessed = False,
       reported = [ReportKey KEY_VOLUME_UP 1, ReportKey KEY_VOLUME_UP 1] \<rparr>"
  by (simp add: initialDecoder_def onTimer_def checkSensor_def pos_slide checkTap_def Let_def
      optimizeQueue_nonneg checkQueue_eq queueSize_def slideCalls_def)

lemma pos_parts_zero:
  "\<forall>x\<in>set q. sint (x :: schar) \<le> 0 \<Longrightarrow> (\<Sum>x\<leftarrow>q. max 0 (sint x)) = 0"
  by (induction q) simp_all

lemma optimizeQueue_nonpos:
  assumes len: "length (queue s) = queueSize" and np: "\<forall>x\<in>set (queue s). sint x \<le> 0"
  shows "optimizeQueue s = s"
proof -
  have P: "(\<Sum>x\<leftarrow>queue s. max 0 (sint x)) = 0" using np by (rule pos_parts_zero)
  have N0: "0 \<le> (\<Sum>x\<leftarrow>queue s. max 0 (- sint x))" by (rule sum_list_nonneg) auto
  have ch: "(if (\<Sum>x\<leftarrow>queue s. max 0 (sint x)) > (\<Sum>x\<leftarrow>queue s. max 0 (- sint x))
              then ((\<Sum>x\<leftarrow>queue s. max 0 (- sint x)), - 1)
              else ((\<Sum>x\<leftarrow>queue s. max 0 (sint x)), 1)) = (0, 1 :: int)"
    unfolding P using N0 by auto
  have keep: "map (\<lambda>x. if sint x * 1 > 0 then 0 else x) (queue s) = queue s"
  proof (rule map_idI)
    fix x assume "x \<in> set (queue s)"
    then have "sint x \<le> 0" using np by blast
    then show "(if sint x * 1 > 0 then 0 else x) = x" by simp
  qed
  show ?thesis
    unfolding optimizeQueue_unfold [OF len ch] keep
    using absorb_zero [of queueSize "queue s" 1] len by simp
qed

lemma optimizeQueue_single:
  assumes "queue s = [a, b, c, d]"
    and "(a = 0 \<and> b = 0 \<and> c = 0) \<or> (a = 0 \<and> b = 0 \<and> d = 0)
         \<or> (a = 0 \<and> c = 0 \<and> d = 0) \<or> (b = 0 \<and> c = 0 \<and> d = 0)"
  shows "optimizeQueue s = s"
proof -
  have len: "length (queue s) = queueSize" using assms(1) by (simp add: queueSize_def)
  have "(\<forall>x\<in>set (queue s). 0 \<le> sint x) \<or> (\<forall>x\<in>set (queue s). sint x \<le> 0)"
    unfolding assms(1) using assms(2) by auto
  then show ?thesis using optimizeQueue_nonneg [OF len] optimizeQueue_nonpos [OF len] by blast
qed

lemma checkTap_idle: "isTouching s \<Longrightarrow> \<not> waitingForDoubleTap s \<Longrightarrow> checkTap s = s"
  by (simp add: checkTap_def Let_def)

lemma onTimer_single:
  assumes pos: "newFingerPos chans = Some p" "0 \<le> p" and old: "oldFingerPos t = p"
    and touch: "isTouching t" "\<not> waitingForDoubleTap t"
    and q: "queue t = [a, b, c, d]"
    and one: "(a = 0 \<and> b = 0 \<and> c = 0) \<or> (a = 0 \<and> b = 0 \<and> d = 0)
         \<or> (a = 0 \<and> c = 0 \<and> d = 0) \<or> (b = 0 \<and> c = 0 \<and> d = 0)"
  shows "onTimer cfg chans t
    = Some (t\<lparr> currentTime := currentTime t + 1,
               reported := reported t @ slideCalls (func cfg) (sint d),
               queue := [0, a, b, c] \<rparr>)"
proof -
  let ?t0 = "t\<lparr> currentTime := currentTime t + 1 \<rparr>"
  have cs: "checkSensor cfg chans ?t0 = Some ?t0"
    using pos touch(1) old [symmetric] by (simp add: checkSensor_def Let_def)
  have ct: "checkTap ?t0 = ?t0" using touch by (simp add: checkTap_idle)
  have oq: "optimizeQueue ?t0 = ?t0"
    using q one by (intro optimizeQueue_single [where a = a and b = b and c = c and d = d]) simp_all
  have len: "length (queue ?t0) = queueSize" using q by (simp add: queueSize_def)
  show ?thesis
    unfolding onTimer_def cs by (simp add: ct oq checkQueue_eq [OF len] q)
qed

lemma delta_reported_after_three_ticks:
  assumes pos: "newFingerPos chans = Some p" "0 \<le> p" "0 \<le> oldFingerPos s" "p \<noteq> oldFingerPos s"
    and empty: "queue s = [0, 0, 0, 0]" and nw: "\<not> waitingForDoubleTap s"
    and w: "(w :: schar)
              = word_of_int ((if flip cfg then - (oldFingerPos s - p) else oldFingerPos s - p)
                  * scale cfg)"
  shows "\<exists>s4. runTicks cfg [chans, chans, chans, chans] s = Some s4
     \<and> reported s4 = reported s @ slideCalls (func cfg) 0 @ slideCalls (func cfg) 0
                        @ slideCalls (func cfg) 0 @ slideCalls (func cfg) (sint w)
     \<and> queue s4 = [0, 0, 0, 0]"
proof -
  let ?s0 = "s\<lparr> currentTime := currentTime s + 1 \<rparr>"
  let ?s1 = "(if \<not> isTouching ?s0
             then ?s0\<lparr> isTouching := True, touchStartTime := currentTime ?s0,
                     hasMoved := False, releaseProcessed := False \<rparr>
             else ?s0)\<lparr> hasMoved := True, queue := (queue ?s0)[0 := w], oldFingerPos := p \<rparr>"
  have w0: "w = word_of_int ((if flip cfg then - (oldFingerPos ?s0 - p) else oldFingerPos ?s0 - p)
                * scale cfg)"
    using w by simp
  have cs: "checkSensor cfg chans ?s0 = Some ?s1"
    using pos(1,2) _ _ w0 by (rule checkSensor_moved_eq) (use pos in simp_all)
  have q1: "queue ?s1 = [w, 0, 0, 0]" using empty by simp
  have t1: "isTouching ?s1" "\<not> waitingForDoubleTap ?s1" using nw by simp_all
  have o1: "oldFingerPos ?s1 = p" by simp
  have ct: "checkTap ?s1 = ?s1" using t1 by (rule checkTap_idle)
  have oq: "optimizeQueue ?s1 = ?s1"
    using q1 by (rule optimizeQueue_single) simp
  have len1: "length (queue ?s1) = queueSize" using q1 by (simp add: queueSize_def)
  define u1 where "u1 = ?s1\<lparr> reported := reported ?s1 @ slideCalls (func cfg) (sint (0 :: schar)),
                           queue := [0, w, 0, 0] \<rparr>"
  have tick1: "onTimer cfg chans s = Some u1"
    unfolding onTimer_def cs u1_def
    by (simp only: option.case ct oq checkQueue_eq [OF len1] q1) simp
  have u1: "oldFingerPos u1 = p" "isTouching u1" "\<not> waitingForDoubleTap u1"
    "queue u1 = [0, w, 0, 0]" "reported u1 = reported s @ slideCalls (func cfg) 0"
    unfolding u1_def using nw by simp_all
  define u2 where "u2 = u1\<lparr> currentTime := currentTime u1 + 1,
               reported := reported u1 @ slideCalls (func cfg) (sint (0 :: schar)),
               queue := [0, 0, w, 0] \<rparr>"
  have tick2: "onTimer cfg chans u1 = Some u2"
    unfolding u2_def using pos(1,2) u1(1,2,3,4) by (rule onTimer_single) simp
  have u2: "oldFingerPos u2 = p" "isTouching u2" "\<not> waitingForDoubleTap u2"
    "queue u2 = [0, 0, w, 0]"
    "reported u2 = reported s @ slideCalls (func cfg) 0 @ slideCalls (func cfg) 0"
    unfolding u2_def using u1 by simp_all
  define u3 where "u3 = u2\<lparr> currentTime := currentTime u2 + 1,
               reported := reported u2 @ slideCalls (func cfg) (sint (0 :: schar)),
               queue := [0, 0, 0, w] \<rparr>"
  have tick3: "onTimer cfg chans u2 = Some u3"
    unfolding u3_def using pos(1,2) u2(1,2,3,4) by (rule onTimer_single) simp
  have u3: "oldFingerPos u3 = p" "isTouching u3" "\<not> waitingForDoubleTap u3"
    "queue u3 = [0, 0, 0, w]"
    "reported u3 = reported s @ slideCalls (func cfg) 0 @ slideCalls (func cfg) 0
        @ slideCalls (func cfg) 0"
    unfolding u3_def using u2 by simp_all
  define u4 where "u4 = u3\<lparr> currentTime := currentTime u3 + 1,
               reported := reported u3 @ slideCalls (func cfg) (sint w),
               queue := [0, 0, 0, 0] \<rparr>"
  have tick4: "onTimer cfg chans u3 = Some u4"
    unfolding u4_def using pos(1,2) u3(1,2,3,4) by (rule onTimer_single) simp
  have "runTicks cfg [chans, chans, chans, chans] s = Some u4"
    by (simp add: tick1 tick2 tick3 tick4)
  moreover have "reported u4 = reported s @ slideCalls (func cfg) 0 @ slideCalls (func cfg) 0
                        @ slideCalls (func cfg) 0 @ slideCalls (func cfg) (sint w)"
    unfolding u4_def using u3 by simp
  moreover have "queue u4 = [0, 0, 0, 0]" unfolding u4_def by simp
  ultimately show ?thesis by blast
qed

lemma pos_first_of_six: "newFingerPos [10, 0, 0, 0, 0, 0] = Some 0"
  by (simp add: newFingerPos_def scanChannel_def cdiv_def wrap32_def upt_rec)

text \<open>
  Claim C6 (as amended).  For a delta \<open>d = oldFingerPos - newFingerPos\<close> between two valid
  positions, with \<open>d\<close> negated when \<open>flip\<close> is set, and the product with \<open>scale\<close> inside
  \<open>- 128 .. 127\<close>: slot 0 holds exactly that product; and when the queue was empty and
  the finger then rests for three more ticks, that product is what the fourth tick
  reports, as up, down or scroll according to the function (\<open>slideCalls\<close>), after three
  reports of the value 0.  Consequently, for a positive \<open>scale\<close> and every run of ticks
  from the initial state in which all such products have magnitude at most 127, whatever
  the function: the run with \<open>flip\<close> set reports what the run without it reports with up
  and down exchanged and scroll values negated (\<open>scaleCall (- 1)\<close>), and the run with
  \<open>scale\<close> reports what the run with scale 1 reports with the values multiplied by
  \<open>scale\<close>.  Tap reports are the same in all of them.
\<close>

theorem flip_scale_at_insertion:
  assumes pos: "newFingerPos chans = Some p" "0 \<le> p" "0 \<le> oldFingerPos s" "p \<noteq> oldFingerPos s"
    and len: "length (queue s) = queueSize"
    and lo: "- 128 \<le> (if flip cfg then - (oldFingerPos s - p) else oldFingerPos s - p) * scale cfg"
    and hi: "(if flip cfg then - (oldFingerPos s - p) else oldFingerPos s - p) * scale cfg \<le> 127"
    and sc: "0 < scale cfg"
    and ne: "[] \<notin> set samples"
    and fit: "deltasFit (scale cfg) samples (oldFingerPos initialDecoder)"
  shows "(\<exists>s'. checkSensor cfg chans s = Some s'
           \<and> sint (queue s' ! 0)
               = (if flip cfg then - (oldFingerPos s - p) else oldFingerPos s - p) * scale cfg)
    \<and> (queue s = [0, 0, 0, 0] \<and> \<not> waitingForDoubleTap s \<longrightarrow>
        (\<exists>s4. runTicks cfg [chans, chans, chans, chans] s = Some s4
           \<and> reported s4
               = reported s @ slideCalls (func cfg) 0 @ slideCalls (func cfg) 0
                 @ slideCalls (func cfg) 0
                 @ slideCalls (func cfg)
                     ((if flip cfg then - (oldFingerPos s - p) else oldFingerPos s - p)
                        * scale cfg)))
    \<and> (\<exists>a b. runTicks (cfg\<lparr> flip := False \<rparr>) samples initialDecoder = Some a
           \<and> runTicks (cfg\<lparr> flip := True \<rparr>) samples initialDecoder = Some b
           \<and> reported b = map (scaleCall (- 1)) (reported a))
    \<and> (\<exists>a b. runTicks (cfg\<lparr> scale := 1 \<rparr>) samples initialDecoder = Some a
           \<and> runTicks cfg samples initialDecoder = Some b
           \<and> reported b = map (scaleCall (scale cfg)) (reported a))"
proof -
  define w :: schar where
    "w = word_of_int ((if flip cfg then - (oldFingerPos s - p) else oldFingerPos s - p) * scale cfg)"
  have sw: "sint w = (if flip cfg then - (oldFingerPos s - p) else oldFingerPos s - p) * scale cfg"
    unfolding w_def using lo hi by (rule sint_word_of_int_schar)
  from checkSensor_moved [OF pos, of cfg]
  obtain s' where s': "checkSensor cfg chans s = Some s'"
    and q: "queue s' = (queue s)[0 := w]"
    unfolding w_def by blast
  have ne0: "0 < length (queue s)" using len by (simp add: queueSize_def)
  have "queue s' ! 0 = w" unfolding q using ne0 by simp
  with s' sw have first: "\<exists>s'. checkSensor cfg chans s = Some s'
           \<and> sint (queue s' ! 0)
               = (if flip cfg then - (oldFingerPos s - p) else oldFingerPos s - p) * scale cfg"
    by auto
  have pipe: "queue s = [0, 0, 0, 0] \<and> \<not> waitingForDoubleTap s \<longrightarrow>
        (\<exists>s4. runTicks cfg [chans, chans, chans, chans] s = Some s4
           \<and> reported s4
               = reported s @ slideCalls (func cfg) 0 @ slideCalls (func cfg) 0
                 @ slideCalls (func cfg) 0
                 @ slideCalls (func cfg)
                     ((if flip cfg then - (oldFingerPos s - p) else oldFingerPos s - p)
                        * scale cfg))"
  proof
    assume a: "queue s = [0, 0, 0, 0] \<and> \<not> waitingForDoubleTap s"
    from delta_reported_after_three_ticks [OF pos _ _ w_def] a
    obtain s4 where "runTicks cfg [chans, chans, chans, chans] s = Some s4"
      and "reported s4 = reported s @ slideCalls (func cfg) 0 @ slideCalls (func cfg) 0
                        @ slideCalls (func cfg) 0 @ slideCalls (func cfg) (sint w)"
      by blast
    then show "\<exists>s4. runTicks cfg [chans, chans, chans, chans] s = Some s4
           \<and> reported s4
               = reported s @ slideCalls (func cfg) 0 @ slideCalls (func cfg) 0
                 @ slideCalls (func cfg) 0
                 @ slideCalls (func cfg)
                     ((if flip cfg then - (oldFingerPos s - p) else oldFingerPos s - p)
                        * scale cfg)"
      unfolding sw by blast
  qed
  have flipped: "\<exists>a b. runTicks (cfg\<lparr> flip := False \<rparr>) samples initialDecoder = Some a
           \<and> runTicks (cfg\<lparr> flip := True \<rparr>) samples initialDecoder = Some b
           \<and> reported b = map (scaleCall (- 1)) (reported a)"
  proof (rule runs_scaled_from_initial)
    show "func (cfg\<lparr> flip := True \<rparr>) = func (cfg\<lparr> flip := False \<rparr>)" by simp
    show "factor (cfg\<lparr> flip := True \<rparr>) = - 1 * factor (cfg\<lparr> flip := False \<rparr>)"
      by (simp add: factor_def)
    show "(- 1 :: int) \<noteq> 0" by simp
    show "[] \<notin> set samples" by (rule ne)
    show "deltasFit (scale (cfg\<lparr> flip := True \<rparr>)) samples (oldFingerPos initialDecoder)"
      using fit by simp
  qed
  have scaled: "\<exists>a b. runTicks (cfg\<lparr> scale := 1 \<rparr>) samples initialDecoder = Some a
           \<and> runTicks cfg samples initialDecoder = Some b
           \<and> reported b = map (scaleCall (scale cfg)) (reported a)"
  proof (rule runs_scaled_from_initial)
    show "func cfg = func (cfg\<lparr> scale := 1 \<rparr>)" by simp
    show "factor cfg = scale cfg * factor (cfg\<lparr> scale := 1 \<rparr>)"
      by (simp add: factor_def)
    show "scale cfg \<noteq> 0" using sc by simp
    show "[] \<notin> set samples" by (rule ne)
    show "deltasFit (scale cfg) samples (oldFingerPos initialDecoder)" by (rule fit)
  qed
  show ?thesis using first pipe flipped scaled by blast
qed

theorem flip_scale_at_insertion_witness:
  "map_option (\<lambda>s'. sint (queue s' ! 0))
       (checkSensor \<lparr> flip = False, scale = 2, func = DEVICE_FUNCTION_VOLUME \<rparr>
          [10, 0, 0, 0, 0, 0] (initialDecoder\<lparr> oldFingerPos := 3, isTouching := True \<rparr>))
      = Some 6
   \<and> map_option reported
       (runTicks \<lparr> flip = False, scale = 2, func = DEVICE_FUNCTION_VOLUME \<rparr>
          [[10, 0, 0, 0, 0, 0], [10, 0, 0, 0, 0, 0], [10, 0, 0, 0, 0, 0], [10, 0, 0, 0, 0, 0]]
          (initialDecoder\<lparr> oldFingerPos := 3, isTouching := True \<rparr>))
      = Some [ReportKey KEY_VOLUME_UP 6]
   \<and> deltasFit 2
        [[0, 0, 0, 10, 0, 0], [0, 0, 10, 0, 0, 0], [0, 10, 0, 0, 0, 0],
         [0, 10, 0, 0, 0, 0], [0, 10, 0, 0, 0, 0], [0, 10, 0, 0, 0, 0]] (- 1)
   \<and> map_option reported
        (runTicks \<lparr> flip = False, scale = 1, func = DEVICE_FUNCTION_VOLUME \<rparr>
          [[0, 0, 0, 10, 0, 0], [0, 0, 10, 0, 0, 0], [0, 10, 0, 0, 0, 0],
           [0, 10, 0, 0, 0, 0], [0, 10, 0, 0, 0, 0], [0, 10, 0, 0, 0, 0]] initialDecoder)
      = Some [ReportKey KEY_VOLUME_UP 1, ReportKey KEY_VOLUME_UP 1]
   \<and> map_option reported
        (runTicks \<lparr> flip = False, scale = 2, func = DEVICE_FUNCTION_VOLUME \<rparr>
          [[0, 0, 0, 10, 0, 0], [0, 0, 10, 0, 0, 0], [0, 10, 0, 0, 0, 0],
           [0, 10, 0, 0, 0, 0], [0, 10, 0, 0, 0, 0], [0, 10, 0, 0, 0, 0]] initialDecoder)
      = Some [ReportKey KEY_VOLUME_UP 2, ReportKey KEY_VOLUME_UP 2]
   \<and> map_option reported
        (runTicks \<lparr> flip = True, scale = 2, func = DEVICE_FUNCTION_VOLUME \<rparr>
          [[0, 0, 0, 10, 0, 0], [0, 0, 10, 0, 0, 0], [0, 10, 0, 0, 0, 0],
           [0, 10, 0, 0, 0, 0], [0, 10, 0, 0, 0, 0], [0, 10, 0, 0, 0, 0]] initialDecoder)
      = Some [ReportKey KEY_VOLUME_DOWN 2, ReportKey KEY_VOLUME_DOWN 2]"
proof -
  let ?cfg = "\<lparr> flip = False, scale = 2, func = DEVICE_FUNCTION_VOLUME \<rparr>"
  let ?s = "initialDecoder\<lparr> oldFingerPos := 3, isTouching := True \<rparr>"
  let ?slide = "[[0, 0, 0, 10, 0, 0], [0, 0, 10, 0, 0, 0], [0, 10, 0, 0, 0, 0],
           [0, 10, 0, 0, 0, 0], [0, 10, 0, 0, 0, 0], [0, 10, 0, 0, 0, 0 :: int]]"
  have h1: "newFingerPos [10, 0, 0, 0, 0, 0] = Some 0" by (rule pos_first_of_six)
  have h2: "(0 :: int) \<le> 0" by simp
  have h3: "0 \<le> oldFingerPos ?s" by simp
  have h4: "0 \<noteq> oldFingerPos ?s" by simp
  have h5: "length (queue ?s) = queueSize" by (simp add: initialDecoder_def queueSize_def)
  have h6: "- 128 \<le> (if flip ?cfg then - (oldFingerPos ?s - 0) else oldFingerPos ?s - 0) * scale ?cfg"
    by simp
  have h7: "(if flip ?cfg then - (oldFingerPos ?s - 0) else oldFingerPos ?s - 0) * scale ?cfg \<le> 127"
    by simp
  have h8: "0 < scale ?cfg" by simp
  have h9: "[] \<notin> set ?slide" by simp
  have fit: "deltasFit 2 ?slide (- 1)" by (simp add: pos_slide)
  have h10: "deltasFit (scale ?cfg) ?slide (oldFingerPos initialDecoder)"
    using fit by (simp add: initialDecoder_def)
  note inst = flip_scale_at_insertion [OF h1 h2 h3 h4 h5 h6 h7 h8 h9 h10]
  from inst obtain s' where "checkSensor ?cfg [10, 0, 0, 0, 0, 0] ?s = Some s'"
    and "sint (queue s' ! 0)
        = (if flip ?cfg then - (oldFingerPos ?s - 0) else oldFingerPos ?s - 0) * scale ?cfg"
    by blast
  then have first: "map_option (\<lambda>s'. sint (queue s' ! 0)) (checkSensor ?cfg [10, 0, 0, 0, 0, 0] ?s)
      = Some 6"
    by simp
  have e: "queue ?s = [0, 0, 0, 0] \<and> \<not> waitingForDoubleTap ?s"
    by (simp add: initialDecoder_def)
  from inst e obtain s4 where
    "runTicks ?cfg [[10, 0, 0, 0, 0, 0], [10, 0, 0, 0, 0, 0], [10, 0, 0, 0, 0, 0], [10, 0, 0, 0, 0, 0]] ?s
       = Some s4"
    and "reported s4
         = reported ?s @ slideCalls (func ?cfg) 0 @ slideCalls (func ?cfg) 0
           @ slideCalls (func ?cfg) 0
           @ slideCalls (func ?cfg)
               ((if flip ?cfg then - (oldFingerPos ?s - 0) else oldFingerPos ?s - 0) * scale ?cfg)"
    by blast
  then have pipe: "map_option reported
       (runTicks ?cfg [[10, 0, 0, 0, 0, 0], [10, 0, 0, 0, 0, 0], [10, 0, 0, 0, 0, 0], [10, 0, 0, 0, 0, 0]] ?s)
      = Some [ReportKey KEY_VOLUME_UP 6]"
    by (simp del: runTicks.simps add: slideCalls_def initialDecoder_def)
  have base: "map_option reported
        (runTicks \<lparr> flip = False, scale = 1, func = DEVICE_FUNCTION_VOLUME \<rparr> ?slide initialDecoder)
      = Some [ReportKey KEY_VOLUME_UP 1, ReportKey KEY_VOLUME_UP 1]"
    by (simp only: slide_run) simp
  from inst obtain a b where "runTicks (?cfg\<lparr> scale := 1 \<rparr>) ?slide initialDecoder = Some a"
    and "runTicks ?cfg ?slide initialDecoder = Some b"
    and "reported b = map (scaleCall (scale ?cfg)) (reported a)"
    by blast
  then have scaled: "map_option reported (runTicks ?cfg ?slide initialDecoder)
      = Some [ReportKey KEY_VOLUME_UP 2, ReportKey KEY_VOLUME_UP 2]"
    by (auto simp del: runTicks.simps simp add: slide_run KEY_VOLUME_UP_def)
  from inst obtain a b where "runTicks (?cfg\<lparr> flip := False \<rparr>) ?slide initialDecoder = Some a"
    and "runTicks (?cfg\<lparr> flip := True \<rparr>) ?slide initialDecoder = Some b"
    and "reported b = map (scaleCall (- 1)) (reported a)"
    by blast
  then have flipped: "map_option reported
        (runTicks \<lparr> flip = True, scale = 2, func = DEVICE_FUNCTION_VOLUME \<rparr> ?slide initialDecoder)
      = Some [ReportKey KEY_VOLUME_DOWN 2, ReportKey KEY_VOLUME_DOWN 2]"
    using scaled by (auto simp del: runTicks.simps simp add: KEY_VOLUME_UP_def KEY_VOLUME_DOWN_def)
  show ?thesis using first pipe fit base scaled flipped by blast
qed

text \<open>
  Outside that range the claim as first stated fails: with scale 30 and a move from
  position 5 to position 0 the product is 150, slot 0 holds \<open>- 106\<close>, and such a value is
  reported as volume down by 106 with no flip set.
\<close>

theorem flip_scale_at_insertion_counterexample:
  "map_option (\<lambda>s'. sint (queue s' ! 0))
       (checkSensor \<lparr> flip = False, scale = 30, func = DEVICE_FUNCTION_VOLUME \<rparr>
          [10, 0, 0, 0, 0, 0] (initialDecoder\<lparr> oldFingerPos := 5, isTouching := True \<rparr>))
      = Some (- 106)
   \<and> (5 - 0) * 30 \<noteq> (- 106 :: int)
   \<and> reported (checkQueue \<lparr> flip = False, scale = 30, func = DEVICE_FUNCTION_VOLUME \<rparr>
          (initialDecoder\<lparr> queue := [0, 0, 0, word_of_int ((5 - 0) * 30)] \<rparr>))
      = [ReportKey KEY_VOLUME_DOWN 106]"
proof -
  let ?cfg = "\<lparr> flip = False, scale = 30, func = DEVICE_FUNCTION_VOLUME \<rparr>"
  let ?s = "initialDecoder\<lparr> oldFingerPos := 5, isTouching := True \<rparr>"
  have w: "sint (word_of_int ((5 - 0) * 30) :: schar) = - 106"
    by (simp only: int_word_sint) simp
  have "0 \<le> oldFingerPos ?s" "0 \<noteq> oldFingerPos ?s" by simp_all
  from checkSensor_moved [OF pos_first_of_six _ this, of ?cfg]
  obtain s' where s': "checkSensor ?cfg [10, 0, 0, 0, 0, 0] ?s = Some s'"
    and q: "queue s' = (queue ?s)[0 := word_of_int
            ((if flip ?cfg then - (oldFingerPos ?s - 0) else oldFingerPos ?s - 0) * scale ?cfg)]"
    by auto
  have "queue s' ! 0 = word_of_int ((5 - 0) * 30)"
    unfolding q by (simp add: initialDecoder_def)
  then have a: "sint (queue s' ! 0) = - 106" using w by simp
  have b: "reported (checkQueue ?cfg (initialDecoder\<lparr> queue := [0, 0, 0, word_of_int ((5 - 0) * 30)] \<rparr>))
      = [ReportKey KEY_VOLUME_DOWN 106]"
    unfolding checkQueue_reported using w by (simp add: initialDecoder_def)
  show ?thesis using s' a b by simp
qed

end
